theory Spec2Isabelle
  imports Main "HOL-Library.AList" "HOL-Library.Multiset"
begin

section \<open>JavaScript values used by the graph library\<close>

text \<open>
  Vertex identifiers are documented as \<^verbatim>\<open>{string|number}\<close>.  \<open>Str s\<close> is the string \<open>s\<close>,
  \<open>Num n\<close> the number whose value is the integer \<open>n\<close> (a safe integer; fractional numbers,
  \<^verbatim>\<open>NaN\<close> and infinities are outside the model).  \<^verbatim>\<open>Set\<close>, \<^verbatim>\<open>Map\<close> and
  \<^verbatim>\<open>Array.prototype.includes\<close> all compare with SameValueZero, which on these values is
  equality of the datatype.
\<close>

datatype vertex = Str string | Num int

text \<open>The only exception the library code can raise on such inputs.\<close>

datatype error = TypeError

text \<open>Decimal rendering of an integer, digit by digit.  This is how
  \<^verbatim>\<open>Number.prototype.toString\<close>, template literals, \<^verbatim>\<open>ToPropertyKey\<close> and
  \<^verbatim>\<open>JSON.stringify\<close> print a safe integer (magnitude at most \<open>2^53 - 1\<close>), which covers
  every array length and collection size.  Beyond that range JavaScript prints the
  shortest digits that identify the double, and from \<open>10^21\<close> on it switches to exponent
  notation (\<^verbatim>\<open>-1e+21\<close>); \<open>show_nat\<close> and \<open>show_int\<close> do not follow it there, so a
  statement about printed text is made for safe integers only.\<close>

definition digit :: "nat \<Rightarrow> char" where
  "digit d = ''0123456789'' ! (d mod 10)"

function show_nat :: "nat \<Rightarrow> string" where
  "show_nat n = (if n < 10 then [digit n] else show_nat (n div 10) @ [digit (n mod 10)])"
  by pat_completeness auto
termination
  by (relation "measure (\<lambda>n. n)") auto

declare show_nat.simps [simp del]

definition show_int :: "int \<Rightarrow> string" where
  "show_int i = (if i < 0 then CHR ''-'' # show_nat (nat (- i)) else show_nat (nat i))"

text \<open>\<^verbatim>\<open>Array.prototype.join(',')\<close> on already rendered elements.\<close>

fun join_comma :: "string list \<Rightarrow> string" where
  "join_comma [] = []"
| "join_comma [s] = s"
| "join_comma (s # t # ts) = s @ CHR '','' # join_comma (t # ts)"

text \<open>\<^verbatim>\<open>JSON.stringify\<close> of an array of non-negative integers.\<close>

definition JSON_stringify :: "nat list \<Rightarrow> string" where
  "JSON_stringify ds = CHR ''['' # join_comma (map show_nat ds) @ '']''"

text \<open>\<^verbatim>\<open>ToPropertyKey\<close>: the string under which a vertex becomes a key of a plain object.\<close>

fun propertyKey :: "vertex \<Rightarrow> string" where
  "propertyKey (Str s) = s"
| "propertyKey (Num n) = show_int n"

section \<open>Graph (graph.js)\<close>

text \<open>
  \<^verbatim>\<open>vertices\<close> is a \<^verbatim>\<open>Set\<close>: a duplicate-free sequence in insertion order.
  \<^verbatim>\<open>adjacencyList\<close> is a \<^verbatim>\<open>Map\<close> from vertex to neighbour array: an association list
  in insertion order, read with \<open>map_of\<close> and written with \<open>AList.update\<close> (which keeps
  the position of an existing key, as \<^verbatim>\<open>Map.prototype.set\<close> does).
\<close>

record 'v graph =
  isDirected :: bool
  adjacencyList :: "('v \<times> 'v list) list"
  vertices :: "'v list"
  edges :: "('v \<times> 'v) list"

definition Graph :: "bool \<Rightarrow> 'v graph" where
  "Graph directed = \<lparr>isDirected = directed, adjacencyList = [], vertices = [], edges = []\<rparr>"

definition addVertex :: "'v \<Rightarrow> 'v graph \<Rightarrow> 'v graph" where
  "addVertex vertex g =
     (if vertex \<notin> set (vertices g)
      then g\<lparr>vertices := vertices g @ [vertex],
             adjacencyList := AList.update vertex [] (adjacencyList g)\<rparr>
      else g)"

text \<open>\<^verbatim>\<open>this.adjacencyList.get(k).push(x)\<close>: a \<^verbatim>\<open>TypeError\<close> when \<open>k\<close> is not a key.\<close>

definition pushNeighbor :: "'v \<Rightarrow> 'v \<Rightarrow> ('v \<times> 'v list) list \<Rightarrow> error + ('v \<times> 'v list) list" where
  "pushNeighbor k x al =
     (case map_of al k of
        None \<Rightarrow> Inl TypeError
      | Some ns \<Rightarrow> Inr (AList.update k (ns @ [x]) al))"

definition addEdge :: "'v \<Rightarrow> 'v \<Rightarrow> 'v graph \<Rightarrow> error + 'v graph" where
  "addEdge v1 v2 g0 =
     (let g = addVertex v2 (addVertex v1 g0) in
      case pushNeighbor v1 v2 (adjacencyList g) of
        Inl e \<Rightarrow> Inl e
      | Inr al \<Rightarrow>
          (let g' = g\<lparr>adjacencyList := al, edges := edges g @ [(v1, v2)]\<rparr> in
           if \<not> isDirected g' then
             (case pushNeighbor v2 v1 (adjacencyList g') of
                Inl e \<Rightarrow> Inl e
              | Inr al' \<Rightarrow> Inr (g'\<lparr>adjacencyList := al'\<rparr>))
           else Inr g'))"

definition getNeighbors :: "'v graph \<Rightarrow> 'v \<Rightarrow> 'v list" where
  "getNeighbors g vertex = (case map_of (adjacencyList g) vertex of None \<Rightarrow> [] | Some ns \<Rightarrow> ns)"

definition getDegree :: "'v graph \<Rightarrow> 'v \<Rightarrow> nat" where
  "getDegree g vertex = length (getNeighbors g vertex)"

definition areAdjacent :: "'v graph \<Rightarrow> 'v \<Rightarrow> 'v \<Rightarrow> bool" where
  "areAdjacent g v1 v2 =
     (case map_of (adjacencyList g) v1 of None \<Rightarrow> False | Some ns \<Rightarrow> v2 \<in> set ns)"

text \<open>\<^verbatim>\<open>degrees.sort((a, b) => b - a)\<close>: descending order.\<close>

definition getDegreeSequence :: "'v graph \<Rightarrow> nat list" where
  "getDegreeSequence g = rev (sort (map (getDegree g) (vertices g)))"

definition getVertexCount :: "'v graph \<Rightarrow> nat" where
  "getVertexCount g = length (vertices g)"

definition getEdgeCount :: "'v graph \<Rightarrow> nat" where
  "getEdgeCount g = (if isDirected g then length (edges g) else length (edges g))"

section \<open>Invariant checker (isomorphism.js)\<close>

record checks =
  vertexCount :: bool
  edgeCount :: bool
  degreeSequence :: bool

record graphDetails =
  detailVertices :: nat
  detailEdges :: nat
  detailDegrees :: "nat list"

record invariantCheck =
  isomorphismPossible :: bool
  invariantChecks :: checks
  detailsG1 :: graphDetails
  detailsG2 :: graphDetails

definition checkInvariants :: "'v graph \<Rightarrow> 'w graph \<Rightarrow> invariantCheck" where
  "checkInvariants g1 g2 =
     (let cs = \<lparr>vertexCount = (getVertexCount g1 = getVertexCount g2),
                edgeCount = (getEdgeCount g1 = getEdgeCount g2),
                degreeSequence =
                  (JSON_stringify (getDegreeSequence g1) = JSON_stringify (getDegreeSequence g2))\<rparr>;
          allPass = list_all (\<lambda>v. v) [vertexCount cs, edgeCount cs, degreeSequence cs]
      in \<lparr>isomorphismPossible = allPass,
          invariantChecks = cs,
          detailsG1 = \<lparr>detailVertices = getVertexCount g1, detailEdges = getEdgeCount g1,
                       detailDegrees = getDegreeSequence g1\<rparr>,
          detailsG2 = \<lparr>detailVertices = getVertexCount g2, detailEdges = getEdgeCount g2,
                       detailDegrees = getDegreeSequence g2\<rparr>\<rparr>)"

section \<open>Permutations and candidate mappings (isomorphism.js)\<close>

function permute :: "'a list \<Rightarrow> 'a list list" where
  "permute arr =
     (if length arr \<le> 1 then [arr]
      else concat (map (\<lambda>i. map (\<lambda>perm. arr ! i # perm)
                                (permute (take i arr @ drop (Suc i) arr)))
                       [0..<length arr]))"
  by pat_completeness auto
termination
  by (relation "measure length") auto

declare permute.simps [simp del]

text \<open>
  A candidate mapping is a \<^verbatim>\<open>Map\<close> from vertices of the first graph to values read out of
  a permutation; \<open>None\<close> stands for \<^verbatim>\<open>undefined\<close> (what \<^verbatim>\<open>perm[i]\<close> yields beyond the end
  of \<open>perm\<close>, and what \<^verbatim>\<open>Map.prototype.get\<close> yields for a missing key).
\<close>

type_synonym 'v jsMap = "('v \<times> 'v option) list"

definition mapGet :: "'v jsMap \<Rightarrow> 'v \<Rightarrow> 'v option" where
  "mapGet m k = (case map_of m k of None \<Rightarrow> None | Some x \<Rightarrow> x)"

text \<open>\<^verbatim>\<open>for (let i = 0; i < keys.length; i++) mapping.set(keys[i], perm[i])\<close>\<close>

fun setAll :: "'v list \<Rightarrow> 'v list \<Rightarrow> 'v jsMap \<Rightarrow> 'v jsMap" where
  "setAll [] perm m = m"
| "setAll (k # ks) perm m =
     setAll ks (tl perm) (AList.update k (case perm of [] \<Rightarrow> None | p # _ \<Rightarrow> Some p) m)"

text \<open>
  \<^verbatim>\<open>g2.areAdjacent(mapping.get(v1), mapping.get(v2))\<close>: \<^verbatim>\<open>undefined\<close> is neither a key of
  the adjacency map nor an element of a neighbour array, so the answer is \<^verbatim>\<open>false\<close> then.
\<close>

definition areAdjacentMapped :: "'v graph \<Rightarrow> 'v option \<Rightarrow> 'v option \<Rightarrow> bool" where
  "areAdjacentMapped g a b =
     (case a of None \<Rightarrow> False
      | Some x \<Rightarrow> (case b of None \<Rightarrow> False | Some y \<Rightarrow> areAdjacent g x y))"

definition isValidMapping :: "'v graph \<Rightarrow> 'v graph \<Rightarrow> 'v jsMap \<Rightarrow> bool" where
  "isValidMapping g1 g2 mapping =
     (let vertices1 = vertices g1 in
      list_all (\<lambda>v1. list_all (\<lambda>v2.
          areAdjacent g1 v1 v2 = areAdjacentMapped g2 (mapGet mapping v1) (mapGet mapping v2))
        vertices1) vertices1)"

text \<open>
  \<^verbatim>\<open>Object.fromEntries(mapping)\<close>: every key goes through \<^verbatim>\<open>ToPropertyKey\<close>; a later entry
  with the same property key overwrites the earlier one.  (The enumeration order of the
  object's properties is not modelled; only lookups are.)
\<close>

type_synonym jsObject = "(string \<times> vertex option) list"

definition fromEntries :: "vertex jsMap \<Rightarrow> jsObject" where
  "fromEntries m = foldl (\<lambda>obj (k, v). AList.update (propertyKey k) v obj) [] m"

text \<open>\<^verbatim>\<open>obj[v]\<close> for a vertex \<open>v\<close>.\<close>

definition objGet :: "jsObject \<Rightarrow> vertex \<Rightarrow> vertex option" where
  "objGet obj v = (case map_of obj (propertyKey v) of None \<Rightarrow> None | Some x \<Rightarrow> x)"

section \<open>Search results, options and progress events\<close>

text \<open>
  \<open>maxVertices = None\<close> and \<open>onProgress = False\<close> are the absent fields of the options
  object.  A progress record carries \<^verbatim>\<open>checked\<close> and, in the brute-force search,
  \<^verbatim>\<open>total\<close>; its \<^verbatim>\<open>percentage\<close> string (a \<^verbatim>\<open>toFixed\<close> rendering of a float) is left out.
  In a result, \<open>None\<close> is \<^verbatim>\<open>null\<close> for \<open>isIsomorphic\<close> and \<open>mapping\<close> and an absent field
  for \<open>reason\<close>, \<open>permutationsChecked\<close> and \<open>optimized\<close>.
\<close>

record options =
  maxVertices :: "int option"
  onProgress :: bool

record progress =
  checked :: nat
  total :: "nat option"

record result =
  isIsomorphic :: "bool option"
  reason :: "string option"
  invariantCheck :: invariantCheck
  mapping :: "jsObject option"
  permutationsChecked :: "nat option"
  optimized :: "bool option"

section \<open>Brute-force search\<close>

fun bruteLoop :: "'v graph \<Rightarrow> 'v graph \<Rightarrow> 'v list \<Rightarrow> bool \<Rightarrow> nat \<Rightarrow> 'v list list \<Rightarrow> nat \<Rightarrow>
    progress list \<Rightarrow> 'v jsMap option \<times> nat \<times> progress list" where
  "bruteLoop g1 g2 vertices1 report n [] checkedCount log = (None, checkedCount, log)"
| "bruteLoop g1 g2 vertices1 report n (perm # rest) checkedCount log =
     (let checkedCount' = checkedCount + 1;
          candidate = setAll vertices1 perm [];
          log' = (if report then log @ [\<lparr>checked = checkedCount', total = Some n\<rparr>] else log)
      in if isValidMapping g1 g2 candidate then (Some candidate, checkedCount', log')
         else bruteLoop g1 g2 vertices1 report n rest checkedCount' log')"

definition detectIsomorphism :: "vertex graph \<Rightarrow> vertex graph \<Rightarrow> options \<Rightarrow> result \<times> progress list" where
  "detectIsomorphism g1 g2 opts =
     (let maxV = (case maxVertices opts of None \<Rightarrow> 10 | Some m \<Rightarrow> m);
          ic = checkInvariants g1 g2
      in if \<not> isomorphismPossible ic then
           (\<lparr>isIsomorphic = Some False, reason = Some ''Invariants do not match'',
             invariantCheck = ic, mapping = None, permutationsChecked = None,
             optimized = None\<rparr>, [])
         else
           (let n = getVertexCount g1 in
            if int n > maxV then
              (\<lparr>isIsomorphic = None,
                reason = Some (''Graph too large ('' @ show_nat n @ '' vertices > '' @ show_int maxV
                                @ '' max). Use specialized algorithms.''),
                invariantCheck = ic, mapping = None, permutationsChecked = None,
                optimized = None\<rparr>, [])
            else
              (let vertices1 = vertices g1;
                   vertices2 = vertices g2;
                   permutations = permute vertices2
               in case bruteLoop g1 g2 vertices1 (onProgress opts) (length permutations)
                         permutations 0 [] of
                    (Some m, checkedCount, log) \<Rightarrow>
                      (\<lparr>isIsomorphic = Some True, reason = None, invariantCheck = ic,
                        mapping = Some (fromEntries m), permutationsChecked = Some checkedCount,
                        optimized = None\<rparr>, log)
                  | (None, checkedCount, log) \<Rightarrow>
                      (\<lparr>isIsomorphic = Some False,
                        reason = Some ''No valid mapping found after checking all permutations'',
                        invariantCheck = ic, mapping = None,
                        permutationsChecked = Some checkedCount, optimized = None\<rparr>, log))))"

section \<open>Degree-partitioned search\<close>

text \<open>
  \<^verbatim>\<open>if (!groups.has(degree)) groups.set(degree, []); groups.get(degree).push(v)\<close>
\<close>

definition groupVertex :: "'v graph \<Rightarrow> (nat \<times> 'v list) list \<Rightarrow> 'v \<Rightarrow> (nat \<times> 'v list) list" where
  "groupVertex g groups v =
     (let degree = getDegree g v in
      case map_of groups degree of
        None \<Rightarrow> AList.update degree [v] groups
      | Some vs \<Rightarrow> AList.update degree (vs @ [v]) groups)"

definition degreeGroups :: "'v graph \<Rightarrow> (nat \<times> 'v list) list" where
  "degreeGroups g = foldl (groupVertex g) [] (vertices g)"

text \<open>
  What a generator does when it is run to its end: it yields values one by one and then
  finishes, or an exception escapes from it.
\<close>

datatype 'a gen = Done | Yield 'a "'a gen" | Throw

fun gen_append :: "'a gen \<Rightarrow> 'a gen \<Rightarrow> 'a gen" where
  "gen_append Done h = h"
| "gen_append (Yield x g) h = Yield x (gen_append g h)"
| "gen_append Throw h = Throw"

text \<open>
  \<^verbatim>\<open>generateMappings(degrees, index, currentMapping)\<close>, with the list argument standing for
  \<^verbatim>\<open>degrees.slice(index)\<close>.  \<^verbatim>\<open>permute(group2)\<close> reads \<^verbatim>\<open>group2.length\<close> and
  the inner loop reads \<^verbatim>\<open>group1.length\<close>: either raises a \<^verbatim>\<open>TypeError\<close> when the group is
  \<^verbatim>\<open>undefined\<close>.
\<close>

fun generateMappings :: "(nat \<times> 'v list) list \<Rightarrow> (nat \<times> 'v list) list \<Rightarrow> nat list \<Rightarrow>
    'v jsMap \<Rightarrow> 'v jsMap gen" where
  "generateMappings degreeGroups1 degreeGroups2 [] currentMapping = Yield currentMapping Done"
| "generateMappings degreeGroups1 degreeGroups2 (degree # rest) currentMapping =
     (case map_of degreeGroups2 degree of
        None \<Rightarrow> Throw
      | Some group2 \<Rightarrow>
          foldr (\<lambda>perm later.
                   gen_append
                     (case map_of degreeGroups1 degree of
                        None \<Rightarrow> Throw
                      | Some group1 \<Rightarrow>
                          generateMappings degreeGroups1 degreeGroups2 rest
                            (setAll group1 perm currentMapping))
                     later)
                (permute group2) Done)"

fun optimizedLoop :: "'v graph \<Rightarrow> 'v graph \<Rightarrow> bool \<Rightarrow> 'v jsMap gen \<Rightarrow> nat \<Rightarrow> progress list \<Rightarrow>
    error + ('v jsMap option \<times> nat \<times> progress list)" where
  "optimizedLoop g1 g2 report Done checkedCount log = Inr (None, checkedCount, log)"
| "optimizedLoop g1 g2 report Throw checkedCount log = Inl TypeError"
| "optimizedLoop g1 g2 report (Yield candidate rest) checkedCount log =
     (let checkedCount' = checkedCount + 1;
          log' = (if report \<and> checkedCount' mod 100 = 0
                  then log @ [\<lparr>checked = checkedCount', total = None\<rparr>] else log)
      in if isValidMapping g1 g2 candidate then Inr (Some candidate, checkedCount', log')
         else optimizedLoop g1 g2 report rest checkedCount' log')"

definition detectIsomorphismOptimized ::
    "vertex graph \<Rightarrow> vertex graph \<Rightarrow> options \<Rightarrow> error + (result \<times> progress list)" where
  "detectIsomorphismOptimized g1 g2 opts =
     (let maxV = (case maxVertices opts of None \<Rightarrow> 12 | Some m \<Rightarrow> m);
          ic = checkInvariants g1 g2
      in if \<not> isomorphismPossible ic then
           Inr (\<lparr>isIsomorphic = Some False, reason = Some ''Invariants do not match'',
                 invariantCheck = ic, mapping = None, permutationsChecked = None,
                 optimized = None\<rparr>, [])
         else
           (let n = getVertexCount g1 in
            if int n > maxV then
              Inr (\<lparr>isIsomorphic = None,
                    reason = Some (''Graph too large ('' @ show_nat n @ '' vertices > ''
                                    @ show_int maxV @ '' max)''),
                    invariantCheck = ic, mapping = None, permutationsChecked = None,
                    optimized = None\<rparr>, [])
            else
              (let degreeGroups1 = degreeGroups g1;
                   degreeGroups2 = degreeGroups g2
               in if length degreeGroups1 \<noteq> length degreeGroups2 then
                    Inr (\<lparr>isIsomorphic = Some False,
                          reason = Some ''Different number of degree groups'',
                          invariantCheck = ic, mapping = None, permutationsChecked = None,
                          optimized = None\<rparr>, [])
                  else
                    (let degrees = map fst degreeGroups1 in
                     case optimizedLoop g1 g2 (onProgress opts)
                            (generateMappings degreeGroups1 degreeGroups2 degrees []) 0 [] of
                       Inl e \<Rightarrow> Inl e
                     | Inr (Some m, checkedCount, log) \<Rightarrow>
                         Inr (\<lparr>isIsomorphic = Some True, reason = None, invariantCheck = ic,
                               mapping = Some (fromEntries m),
                               permutationsChecked = Some checkedCount,
                               optimized = Some True\<rparr>, log)
                     | Inr (None, checkedCount, log) \<Rightarrow>
                         Inr (\<lparr>isIsomorphic = Some False, reason = Some ''No valid mapping found'',
                               invariantCheck = ic, mapping = None,
                               permutationsChecked = Some checkedCount,
                               optimized = Some True\<rparr>, log)))))"

section \<open>Graphs built through the public operations\<close>

datatype 'v operation = AddVertex 'v | AddEdge 'v 'v

fun applyOperation :: "'v operation \<Rightarrow> 'v graph \<Rightarrow> error + 'v graph" where
  "applyOperation (AddVertex v) g = Inr (addVertex v g)"
| "applyOperation (AddEdge v1 v2) g = addEdge v1 v2 g"

fun applyAll :: "'v operation list \<Rightarrow> 'v graph \<Rightarrow> error + 'v graph" where
  "applyAll [] g = Inr g"
| "applyAll (x # xs) g = (case applyOperation x g of Inl e \<Rightarrow> Inl e | Inr g' \<Rightarrow> applyAll xs g')"

section \<open>Invariants of graphs and example graphs\<close>

text \<open>The keys of the adjacency map are exactly the members of the vertex set.\<close>

definition keys_ok :: "'v graph \<Rightarrow> bool" where
  "keys_ok g \<longleftrightarrow> fst ` set (adjacencyList g) = set (vertices g)"

text \<open>What every undirected graph built from \<^verbatim>\<open>new Graph()\<close> by \<^verbatim>\<open>addVertex\<close> and
  \<^verbatim>\<open>addEdge\<close> satisfies.\<close>

definition built_inv :: "'v graph \<Rightarrow> bool" where
  "built_inv g \<longleftrightarrow> keys_ok g \<and> \<not> isDirected g \<and> distinct (vertices g) \<and>
     (\<forall>u v. areAdjacent g u v = areAdjacent g v u) \<and>
     (\<forall>(u, v) \<in> set (edges g). areAdjacent g u v \<and> u \<in> set (vertices g) \<and> v \<in> set (vertices g))"

text \<open>Every recorded edge joins two members of the vertex set.\<close>

definition edges_ok :: "'v graph \<Rightarrow> bool" where
  "edges_ok g \<longleftrightarrow> (\<forall>(u, v) \<in> set (edges g). u \<in> set (vertices g) \<and> v \<in> set (vertices g))"

text \<open>What every graph built by \<^verbatim>\<open>addVertex\<close> and \<^verbatim>\<open>addEdge\<close> satisfies, directed or not.\<close>

definition graph_ok :: "'v graph \<Rightarrow> bool" where
  "graph_ok g \<longleftrightarrow> keys_ok g \<and> distinct (vertices g) \<and> edges_ok g"

text \<open>The values a generator yields before it finishes or throws, and whether it throws.\<close>

fun gen_list :: "'a gen \<Rightarrow> 'a list" where
  "gen_list Done = []"
| "gen_list (Yield x g) = x # gen_list g"
| "gen_list Throw = []"

fun gen_throws :: "'a gen \<Rightarrow> bool" where
  "gen_throws Done = False"
| "gen_throws (Yield x g) = gen_throws g"
| "gen_throws Throw = True"

text \<open>No neighbour is listed twice and every neighbour is a vertex: the graph has no
  repeated edge and no self-loop counted twice.\<close>

definition simple_graph :: "'v graph \<Rightarrow> bool" where
  "simple_graph g \<longleftrightarrow>
     (\<forall>(v, ns) \<in> set (adjacencyList g). distinct ns \<and> set ns \<subseteq> set (vertices g))"

text \<open>\<^verbatim>\<open>Number.isSafeInteger\<close> on an integer: the range in which \<open>show_int\<close> is the text
  JavaScript prints.\<close>

definition safeInteger :: "int \<Rightarrow> bool" where
  "safeInteger n \<longleftrightarrow> - (2 ^ 53 - 1) \<le> n \<and> n \<le> 2 ^ 53 - 1"

text \<open>The ceiling in force: \<^verbatim>\<open>const { maxVertices = dflt } = options\<close>.\<close>

definition ceiling_of :: "int \<Rightarrow> options \<Rightarrow> int" where
  "ceiling_of dflt opts = (case maxVertices opts of None \<Rightarrow> dflt | Some m \<Rightarrow> m)"

text \<open>An isomorphism in the sense of the header of isomorphism.js: a bijection between the
  vertex sets under which two vertices are adjacent exactly when their images are.\<close>

definition isomorphism :: "'v graph \<Rightarrow> 'v graph \<Rightarrow> ('v \<Rightarrow> 'v) \<Rightarrow> bool" where
  "isomorphism g1 g2 f \<longleftrightarrow>
     bij_betw f (set (vertices g1)) (set (vertices g2)) \<and>
     (\<forall>u \<in> set (vertices g1). \<forall>v \<in> set (vertices g1).
        areAdjacent g1 u v = areAdjacent g2 (f u) (f v))"

text \<open>The options object \<^verbatim>\<open>{}\<close> and one with a progress callback.\<close>

definition defaultOptions :: options where
  "defaultOptions = \<lparr>maxVertices = None, onProgress = False\<rparr>"

definition reportingOptions :: options where
  "reportingOptions = \<lparr>maxVertices = None, onProgress = True\<rparr>"

text \<open>The graph a sequence of operations builds from \<^verbatim>\<open>new Graph()\<close>
  (the empty graph should an operation throw, which it never does).\<close>

definition buildGraph :: "'v operation list \<Rightarrow> 'v graph" where
  "buildGraph xs = (case applyAll xs (Graph False) of Inl e \<Rightarrow> Graph False | Inr g \<Rightarrow> g)"

text \<open>The path A - B - C and the triangle 1 - 2 - 3 of the test suite.\<close>

definition pathABC :: "vertex graph" where
  "pathABC = buildGraph [AddEdge (Str ''A'') (Str ''B''), AddEdge (Str ''B'') (Str ''C'')]"

definition triangleABC :: "vertex graph" where
  "triangleABC = buildGraph [AddEdge (Str ''A'') (Str ''B''), AddEdge (Str ''B'') (Str ''C''),
                             AddEdge (Str ''C'') (Str ''A'')]"

definition triangle123 :: "vertex graph" where
  "triangle123 = buildGraph [AddEdge (Num 1) (Num 2), AddEdge (Num 2) (Num 3),
                             AddEdge (Num 3) (Num 1)]"

text \<open>A square and a triangle with a pendant vertex: four vertices and four edges each.\<close>

definition square :: "vertex graph" where
  "square = buildGraph [AddEdge (Num 1) (Num 2), AddEdge (Num 2) (Num 3),
                        AddEdge (Num 3) (Num 4), AddEdge (Num 4) (Num 1)]"

definition paw :: "vertex graph" where
  "paw = buildGraph [AddEdge (Num 1) (Num 2), AddEdge (Num 2) (Num 3),
                     AddEdge (Num 3) (Num 1), AddEdge (Num 1) (Num 4)]"

text \<open>Two paths a - b - c - d with repeated edges: the edge c - d three times in the first,
  the edges b - c and c - d twice each in the second.\<close>

definition multiPathA :: "vertex graph" where
  "multiPathA = buildGraph [AddEdge (Str ''a'') (Str ''b''), AddEdge (Str ''b'') (Str ''c''),
                            AddEdge (Str ''c'') (Str ''d''), AddEdge (Str ''c'') (Str ''d''),
                            AddEdge (Str ''c'') (Str ''d'')]"

definition multiPathB :: "vertex graph" where
  "multiPathB = buildGraph [AddEdge (Str ''a'') (Str ''b''), AddEdge (Str ''b'') (Str ''c''),
                            AddEdge (Str ''b'') (Str ''c''), AddEdge (Str ''c'') (Str ''d''),
                            AddEdge (Str ''c'') (Str ''d'')]"

text \<open>A graph whose vertices include both the number 1 and the string "1", and a graph
  of the same shape over three strings.\<close>

definition mixedKeys :: "vertex graph" where
  "mixedKeys = buildGraph [AddVertex (Num 1), AddVertex (Str ''1''), AddEdge (Num 1) (Str ''x'')]"

definition edgeAndPoint :: "vertex graph" where
  "edgeAndPoint = buildGraph [AddEdge (Str ''a'') (Str ''b''), AddVertex (Str ''c'')]"

text \<open>Thirteen isolated vertices.\<close>

definition thirteen :: "vertex graph" where
  "thirteen = buildGraph (map (\<lambda>i. AddVertex (Num (int i))) [1..<14])"

section \<open>The searches on a heap of objects\<close>

text \<open>
  To say what a call does to the objects it was given, the same code is read once more
  with object identity: every array, \<^verbatim>\<open>Set\<close>, \<^verbatim>\<open>Map\<close> and \<open>Graph\<close> instance is a
  cell of a heap, a reference is the index of its cell, \<open>alloc\<close> creates an object (array
  literals, \<^verbatim>\<open>new Map()\<close>, \<^verbatim>\<open>Array.from\<close>, \<^verbatim>\<open>map\<close>, \<^verbatim>\<open>slice\<close>/\<^verbatim>\<open>concat\<close>, spread) and
  \<open>store\<close> is a write in place (\<^verbatim>\<open>sort\<close>, \<^verbatim>\<open>push\<close>, \<^verbatim>\<open>Map.prototype.set\<close>).  Reading a
  reference that holds no object of the expected kind yields the empty container; a
  running program has no such reference.  The pairs in \<^verbatim>\<open>edges\<close> are kept as values: the
  searches only read the length of that array.  The result object, the invariant report
  and the progress records are new objects that nothing writes to after their creation;
  they are returned as values.
\<close>

datatype cell =
    VertexArray "vertex list"
  | NumberArray "nat list"
  | RefArray "nat list"
  | EdgeArray "(vertex \<times> vertex) list"
  | VertexSet "vertex list"
  | AdjacencyMap "(vertex \<times> nat) list"
  | GroupMap "(nat \<times> nat) list"
  | VertexMap "vertex jsMap"
  | GraphObject bool nat nat nat

type_synonym heap = "cell list"

definition cellAt :: "heap \<Rightarrow> nat \<Rightarrow> cell option" where
  "cellAt h r = (if r < length h then Some (h ! r) else None)"

definition alloc :: "cell \<Rightarrow> heap \<Rightarrow> nat \<times> heap" where
  "alloc c h = (length h, h @ [c])"

definition store :: "nat \<Rightarrow> cell \<Rightarrow> heap \<Rightarrow> heap" where
  "store r c h = (if r < length h then h[r := c] else h)"

definition vertexArrayAt :: "heap \<Rightarrow> nat \<Rightarrow> vertex list" where
  "vertexArrayAt h r = (case cellAt h r of Some (VertexArray xs) \<Rightarrow> xs | _ \<Rightarrow> [])"

definition numberArrayAt :: "heap \<Rightarrow> nat \<Rightarrow> nat list" where
  "numberArrayAt h r = (case cellAt h r of Some (NumberArray xs) \<Rightarrow> xs | _ \<Rightarrow> [])"

definition refArrayAt :: "heap \<Rightarrow> nat \<Rightarrow> nat list" where
  "refArrayAt h r = (case cellAt h r of Some (RefArray xs) \<Rightarrow> xs | _ \<Rightarrow> [])"

definition edgeArrayAt :: "heap \<Rightarrow> nat \<Rightarrow> (vertex \<times> vertex) list" where
  "edgeArrayAt h r = (case cellAt h r of Some (EdgeArray xs) \<Rightarrow> xs | _ \<Rightarrow> [])"

definition vertexSetAt :: "heap \<Rightarrow> nat \<Rightarrow> vertex list" where
  "vertexSetAt h r = (case cellAt h r of Some (VertexSet xs) \<Rightarrow> xs | _ \<Rightarrow> [])"

definition adjacencyMapAt :: "heap \<Rightarrow> nat \<Rightarrow> (vertex \<times> nat) list" where
  "adjacencyMapAt h r = (case cellAt h r of Some (AdjacencyMap xs) \<Rightarrow> xs | _ \<Rightarrow> [])"

definition groupMapAt :: "heap \<Rightarrow> nat \<Rightarrow> (nat \<times> nat) list" where
  "groupMapAt h r = (case cellAt h r of Some (GroupMap xs) \<Rightarrow> xs | _ \<Rightarrow> [])"

definition vertexMapAt :: "heap \<Rightarrow> nat \<Rightarrow> vertex jsMap" where
  "vertexMapAt h r = (case cellAt h r of Some (VertexMap xs) \<Rightarrow> xs | _ \<Rightarrow> [])"

text \<open>The fields of the graph object at reference \<open>g\<close>.\<close>

definition heapDirected :: "heap \<Rightarrow> nat \<Rightarrow> bool" where
  "heapDirected h g = (case cellAt h g of Some (GraphObject d a v e) \<Rightarrow> d | _ \<Rightarrow> False)"

definition heapAdjacency :: "heap \<Rightarrow> nat \<Rightarrow> (vertex \<times> nat) list" where
  "heapAdjacency h g =
     (case cellAt h g of Some (GraphObject d a v e) \<Rightarrow> adjacencyMapAt h a | _ \<Rightarrow> [])"

definition heapVertices :: "heap \<Rightarrow> nat \<Rightarrow> vertex list" where
  "heapVertices h g =
     (case cellAt h g of Some (GraphObject d a v e) \<Rightarrow> vertexSetAt h v | _ \<Rightarrow> [])"

definition heapEdges :: "heap \<Rightarrow> nat \<Rightarrow> (vertex \<times> vertex) list" where
  "heapEdges h g =
     (case cellAt h g of Some (GraphObject d a v e) \<Rightarrow> edgeArrayAt h e | _ \<Rightarrow> [])"

text \<open>The graph, as a value, that the object at \<open>g\<close> and the objects it refers to hold.\<close>

definition graphAt :: "heap \<Rightarrow> nat \<Rightarrow> vertex graph" where
  "graphAt h g =
     \<lparr>isDirected = heapDirected h g,
      adjacencyList = map (\<lambda>(k, r). (k, vertexArrayAt h r)) (heapAdjacency h g),
      vertices = heapVertices h g,
      edges = heapEdges h g\<rparr>"

text \<open>All references held by the graph object at \<open>g\<close> point into the heap.\<close>

definition graphInHeap :: "heap \<Rightarrow> nat \<Rightarrow> bool" where
  "graphInHeap h g \<longleftrightarrow>
     (case cellAt h g of
        Some (GraphObject d a v e) \<Rightarrow>
          a < length h \<and> v < length h \<and> e < length h \<and>
          list_all (\<lambda>(k, r). r < length h) (adjacencyMapAt h a)
      | _ \<Rightarrow> False)"

subsection \<open>Graph methods\<close>

text \<open>\<^verbatim>\<open>this.adjacencyList.get(vertex) || []\<close>: the graph's own array, or a new empty one.\<close>

definition heapGetNeighbors :: "nat \<Rightarrow> vertex \<Rightarrow> heap \<Rightarrow> nat \<times> heap" where
  "heapGetNeighbors g vertex h =
     (case map_of (heapAdjacency h g) vertex of
        None \<Rightarrow> alloc (VertexArray []) h
      | Some r \<Rightarrow> (r, h))"

definition heapGetDegree :: "nat \<Rightarrow> vertex \<Rightarrow> heap \<Rightarrow> nat \<times> heap" where
  "heapGetDegree g vertex h =
     (let (r, h1) = heapGetNeighbors g vertex h in (length (vertexArrayAt h1 r), h1))"

definition heapAreAdjacent :: "heap \<Rightarrow> nat \<Rightarrow> vertex option \<Rightarrow> vertex option \<Rightarrow> bool" where
  "heapAreAdjacent h g a b =
     (case a of None \<Rightarrow> False
      | Some v1 \<Rightarrow>
          (case map_of (heapAdjacency h g) v1 of
             None \<Rightarrow> False
           | Some r \<Rightarrow> (case b of None \<Rightarrow> False | Some v2 \<Rightarrow> v2 \<in> set (vertexArrayAt h r))))"

text \<open>The callback loop of \<^verbatim>\<open>.map(v => this.getDegree(v))\<close>.\<close>

fun heapDegrees :: "nat \<Rightarrow> vertex list \<Rightarrow> heap \<Rightarrow> nat list \<times> heap" where
  "heapDegrees g [] h = ([], h)"
| "heapDegrees g (v # vs) h =
     (let (d, h1) = heapGetDegree g v h;
          (ds, h2) = heapDegrees g vs h1
      in (d # ds, h2))"

text \<open>\<^verbatim>\<open>Array.from(this.vertices)\<close> and \<^verbatim>\<open>.map(...)\<close> each create an array;
  \<^verbatim>\<open>degrees.sort(...)\<close> sorts the second one in place and returns it.\<close>

definition heapGetDegreeSequence :: "nat \<Rightarrow> heap \<Rightarrow> nat \<times> heap" where
  "heapGetDegreeSequence g h =
     (let (vs, h1) = alloc (VertexArray (heapVertices h g)) h;
          (ds, h2) = heapDegrees g (vertexArrayAt h1 vs) h1;
          (degrees, h3) = alloc (NumberArray ds) h2
      in (degrees, store degrees (NumberArray (rev (sort (numberArrayAt h3 degrees)))) h3))"

definition heapGetVertexCount :: "heap \<Rightarrow> nat \<Rightarrow> nat" where
  "heapGetVertexCount h g = length (heapVertices h g)"

definition heapGetEdgeCount :: "heap \<Rightarrow> nat \<Rightarrow> nat" where
  "heapGetEdgeCount h g =
     (if heapDirected h g then length (heapEdges h g) else length (heapEdges h g))"

subsection \<open>isomorphism.js\<close>

text \<open>The four calls of \<^verbatim>\<open>getDegreeSequence\<close> are made in the order of the source; each
  array is read (by \<^verbatim>\<open>JSON.stringify\<close>, or into the details) where the source reads it.\<close>

definition heapCheckInvariants :: "nat \<Rightarrow> nat \<Rightarrow> heap \<Rightarrow> invariantCheck \<times> heap" where
  "heapCheckInvariants g1 g2 h =
     (let (s1, h1) = heapGetDegreeSequence g1 h;
          json1 = JSON_stringify (numberArrayAt h1 s1);
          (s2, h2) = heapGetDegreeSequence g2 h1;
          json2 = JSON_stringify (numberArrayAt h2 s2);
          cs = \<lparr>vertexCount = (heapGetVertexCount h g1 = heapGetVertexCount h g2),
                edgeCount = (heapGetEdgeCount h g1 = heapGetEdgeCount h g2),
                degreeSequence = (json1 = json2)\<rparr>;
          allPass = list_all (\<lambda>v. v) [vertexCount cs, edgeCount cs, degreeSequence cs];
          (d1, h3) = heapGetDegreeSequence g1 h2;
          (d2, h4) = heapGetDegreeSequence g2 h3
      in (\<lparr>isomorphismPossible = allPass,
           invariantChecks = cs,
           detailsG1 = \<lparr>detailVertices = heapGetVertexCount h2 g1,
                        detailEdges = heapGetEdgeCount h2 g1,
                        detailDegrees = numberArrayAt h4 d1\<rparr>,
           detailsG2 = \<lparr>detailVertices = heapGetVertexCount h3 g2,
                        detailEdges = heapGetEdgeCount h3 g2,
                        detailDegrees = numberArrayAt h4 d2\<rparr>\<rparr>, h4))"

text \<open>
  \<^verbatim>\<open>permute(arr)\<close>.  With at most one element the new array \<^verbatim>\<open>[arr]\<close> holds \<open>arr\<close>
  itself.  Otherwise \<open>result\<close> is a new array, \<open>remaining\<close> a new array for every index,
  \<^verbatim>\<open>[current, ...perm]\<close> a new array for every permutation of the rest, and
  \<^verbatim>\<open>result.push\<close> writes to \<open>result\<close>.  The elements of \<open>arr\<close> are read once, before
  the loop: the loop writes to \<open>result\<close> only, which is not \<open>arr\<close>.
\<close>

function heapPermute :: "nat \<Rightarrow> heap \<Rightarrow> nat \<times> heap" where
  "heapPermute arr h =
     (let xs = vertexArrayAt h arr in
      if length xs \<le> 1 then alloc (RefArray [arr]) h
      else
        (let (result, h0) = alloc (RefArray []) h in
         (result,
          foldl (\<lambda>hi i.
                   (let current = xs ! i;
                        (remaining, h1) = (length hi, hi @ [VertexArray (take i xs @ drop (Suc i) xs)]);
                        (perms, h2) = heapPermute remaining h1
                    in foldl (\<lambda>hj perm.
                                (let (p, h3) = alloc (VertexArray (current # vertexArrayAt hj perm)) hj
                                 in store result (RefArray (refArrayAt h3 result @ [p])) h3))
                             h2 (refArrayAt h2 perms)))
                h0 [0..<length xs])))"
  by pat_completeness auto
termination
proof (relation "measure (\<lambda>(arr, h). length (vertexArrayAt h arr))", goal_cases)
  case 1
  show ?case by simp
next
  case (2 arr h xs result h0 hi i current remh remaining h1)
  then show ?case
    by (auto simp: vertexArrayAt_def cellAt_def nth_append)
qed

declare heapPermute.simps [simp del]

text \<open>\<^verbatim>\<open>for (let i = 0; i < keys.length; i++) mapping.set(keys[i], perm[i])\<close> on the map
  object at \<open>candidate\<close>: one write per key.  The two arrays are read before the loop, which
  writes to the map only.\<close>

definition heapSetAll :: "nat \<Rightarrow> nat \<Rightarrow> nat \<Rightarrow> heap \<Rightarrow> heap" where
  "heapSetAll keys perm candidate h =
     (let ks = vertexArrayAt h keys;
          ps = vertexArrayAt h perm
      in foldl (\<lambda>hi i.
                  store candidate
                    (VertexMap (AList.update (ks ! i) (if i < length ps then Some (ps ! i) else None)
                                  (vertexMapAt hi candidate))) hi)
               h [0..<length ks])"

definition heapIsValidMapping :: "nat \<Rightarrow> nat \<Rightarrow> nat \<Rightarrow> heap \<Rightarrow> bool \<times> heap" where
  "heapIsValidMapping g1 g2 candidate h =
     (let (vertices1, h1) = alloc (VertexArray (heapVertices h g1)) h;
          vs = vertexArrayAt h1 vertices1;
          m = vertexMapAt h1 candidate
      in (list_all (\<lambda>v1. list_all (\<lambda>v2.
              heapAreAdjacent h1 g1 (Some v1) (Some v2)
                = heapAreAdjacent h1 g2 (mapGet m v1) (mapGet m v2))
            vs) vs, h1))"

subsection \<open>Brute-force search\<close>

fun heapBruteLoop :: "nat \<Rightarrow> nat \<Rightarrow> nat \<Rightarrow> bool \<Rightarrow> nat \<Rightarrow> nat list \<Rightarrow> nat \<Rightarrow> progress list \<Rightarrow>
    heap \<Rightarrow> (nat option \<times> nat \<times> progress list) \<times> heap" where
  "heapBruteLoop g1 g2 vertices1 report n [] checkedCount log h = ((None, checkedCount, log), h)"
| "heapBruteLoop g1 g2 vertices1 report n (perm # rest) checkedCount log h =
     (let checkedCount' = checkedCount + 1;
          (candidate, h1) = alloc (VertexMap []) h;
          h2 = heapSetAll vertices1 perm candidate h1;
          log' = (if report then log @ [\<lparr>checked = checkedCount', total = Some n\<rparr>] else log);
          (ok, h3) = heapIsValidMapping g1 g2 candidate h2
      in if ok then ((Some candidate, checkedCount', log'), h3)
         else heapBruteLoop g1 g2 vertices1 report n rest checkedCount' log' h3)"

definition heapDetectIsomorphism :: "nat \<Rightarrow> nat \<Rightarrow> options \<Rightarrow> heap \<Rightarrow>
    (result \<times> progress list) \<times> heap" where
  "heapDetectIsomorphism g1 g2 opts h =
     (let maxV = (case maxVertices opts of None \<Rightarrow> 10 | Some m \<Rightarrow> m);
          (ic, h1) = heapCheckInvariants g1 g2 h
      in if \<not> isomorphismPossible ic then
           ((\<lparr>isIsomorphic = Some False, reason = Some ''Invariants do not match'',
              invariantCheck = ic, mapping = None, permutationsChecked = None,
              optimized = None\<rparr>, []), h1)
         else
           (let n = heapGetVertexCount h1 g1 in
            if int n > maxV then
              ((\<lparr>isIsomorphic = None,
                 reason = Some (''Graph too large ('' @ show_nat n @ '' vertices > '' @ show_int maxV
                                 @ '' max). Use specialized algorithms.''),
                 invariantCheck = ic, mapping = None, permutationsChecked = None,
                 optimized = None\<rparr>, []), h1)
            else
              (let (vertices1, h2) = alloc (VertexArray (heapVertices h1 g1)) h1;
                   (vertices2, h3) = alloc (VertexArray (heapVertices h2 g2)) h2;
                   (permutations, h4) = heapPermute vertices2 h3
               in case heapBruteLoop g1 g2 vertices1 (onProgress opts)
                         (length (refArrayAt h4 permutations)) (refArrayAt h4 permutations) 0 [] h4 of
                    ((Some m, checkedCount, log), h5) \<Rightarrow>
                      ((\<lparr>isIsomorphic = Some True, reason = None, invariantCheck = ic,
                         mapping = Some (fromEntries (vertexMapAt h5 m)),
                         permutationsChecked = Some checkedCount, optimized = None\<rparr>, log), h5)
                  | ((None, checkedCount, log), h5) \<Rightarrow>
                      ((\<lparr>isIsomorphic = Some False,
                         reason = Some ''No valid mapping found after checking all permutations'',
                         invariantCheck = ic, mapping = None,
                         permutationsChecked = Some checkedCount, optimized = None\<rparr>, log), h5))))"

subsection \<open>Degree-partitioned search\<close>

text \<open>
  \<^verbatim>\<open>if (!groups.has(degree)) groups.set(degree, []); groups.get(degree).push(v)\<close> on the
  map object at \<open>groups\<close>, which the caller has just created: a new empty array and a write
  to the map for a new degree, then a write to the array of the degree.
\<close>

definition heapGroupVertex :: "nat \<Rightarrow> nat \<Rightarrow> vertex \<Rightarrow> heap \<Rightarrow> heap" where
  "heapGroupVertex g groups v h =
     (let (degree, h1) = heapGetDegree g v h;
          h2 = (if map_of (groupMapAt h1 groups) degree = None then
                  (let (arr, h') = alloc (VertexArray []) h1
                   in store groups (GroupMap (AList.update degree arr (groupMapAt h' groups))) h')
                else h1)
      in case map_of (groupMapAt h2 groups) degree of
           None \<Rightarrow> h2
         | Some r \<Rightarrow> store r (VertexArray (vertexArrayAt h2 r @ [v])) h2)"

text \<open>
  The generator \<^verbatim>\<open>generateMappings\<close> together with the \<^verbatim>\<open>for ... of\<close> loop that consumes
  it: the loop body runs at every \<^verbatim>\<open>yield\<close>, and a \<^verbatim>\<open>return\<close> from the body abandons the
  generator.  The state is the heap, \<open>checkedCount\<close> and the progress events so far.
\<close>

datatype outcome = Found nat | Exhausted | Thrown

type_synonym searchState = "heap \<times> nat \<times> progress list"

fun heapSearch :: "nat \<Rightarrow> nat \<Rightarrow> bool \<Rightarrow> nat \<Rightarrow> nat \<Rightarrow> nat list \<Rightarrow> nat \<Rightarrow> searchState \<Rightarrow>
      outcome \<times> searchState"
  and heapSearchPerms :: "nat \<Rightarrow> nat \<Rightarrow> bool \<Rightarrow> nat \<Rightarrow> nat \<Rightarrow> nat \<Rightarrow> nat list \<Rightarrow> nat \<Rightarrow> nat list \<Rightarrow>
      searchState \<Rightarrow> outcome \<times> searchState" where
  "heapSearch g1 g2 report groups1 groups2 [] currentMapping (h, checkedCount, log) =
     (let (candidate, h1) = alloc (VertexMap (vertexMapAt h currentMapping)) h;
          checkedCount' = checkedCount + 1;
          log' = (if report \<and> checkedCount' mod 100 = 0
                  then log @ [\<lparr>checked = checkedCount', total = None\<rparr>] else log);
          (ok, h2) = heapIsValidMapping g1 g2 candidate h1
      in if ok then (Found candidate, (h2, checkedCount', log'))
         else (Exhausted, (h2, checkedCount', log')))"
| "heapSearch g1 g2 report groups1 groups2 (degree # rest) currentMapping (h, checkedCount, log) =
     (case map_of (groupMapAt h groups2) degree of
        None \<Rightarrow> (Thrown, (h, checkedCount, log))
      | Some group2 \<Rightarrow>
          (let (perms, h1) = heapPermute group2 h
           in heapSearchPerms g1 g2 report groups1 groups2 degree rest currentMapping
                (refArrayAt h1 perms) (h1, checkedCount, log)))"
| "heapSearchPerms g1 g2 report groups1 groups2 degree rest currentMapping [] s = (Exhausted, s)"
| "heapSearchPerms g1 g2 report groups1 groups2 degree rest currentMapping (perm # others)
       (h, checkedCount, log) =
     (let (newMapping, h1) = alloc (VertexMap (vertexMapAt h currentMapping)) h
      in case map_of (groupMapAt h1 groups1) degree of
           None \<Rightarrow> (Thrown, (h1, checkedCount, log))
         | Some group1 \<Rightarrow>
             (case heapSearch g1 g2 report groups1 groups2 rest newMapping
                     (heapSetAll group1 perm newMapping h1, checkedCount, log) of
                (Exhausted, s') \<Rightarrow>
                  heapSearchPerms g1 g2 report groups1 groups2 degree rest currentMapping others s'
              | (Found m, s') \<Rightarrow> (Found m, s')
              | (Thrown, s') \<Rightarrow> (Thrown, s')))"

definition heapDetectIsomorphismOptimized :: "nat \<Rightarrow> nat \<Rightarrow> options \<Rightarrow> heap \<Rightarrow>
    (error + result \<times> progress list) \<times> heap" where
  "heapDetectIsomorphismOptimized g1 g2 opts h =
     (let maxV = (case maxVertices opts of None \<Rightarrow> 12 | Some m \<Rightarrow> m);
          (ic, h1) = heapCheckInvariants g1 g2 h
      in if \<not> isomorphismPossible ic then
           (Inr (\<lparr>isIsomorphic = Some False, reason = Some ''Invariants do not match'',
                  invariantCheck = ic, mapping = None, permutationsChecked = None,
                  optimized = None\<rparr>, []), h1)
         else
           (let n = heapGetVertexCount h1 g1 in
            if int n > maxV then
              (Inr (\<lparr>isIsomorphic = None,
                     reason = Some (''Graph too large ('' @ show_nat n @ '' vertices > ''
                                     @ show_int maxV @ '' max)''),
                     invariantCheck = ic, mapping = None, permutationsChecked = None,
                     optimized = None\<rparr>, []), h1)
            else
              (let (degreeGroups1, h2) = alloc (GroupMap []) h1;
                   (degreeGroups2, h3) = alloc (GroupMap []) h2;
                   h4 = foldl (\<lambda>hi v. heapGroupVertex g1 degreeGroups1 v hi) h3 (heapVertices h3 g1);
                   h5 = foldl (\<lambda>hi v. heapGroupVertex g2 degreeGroups2 v hi) h4 (heapVertices h4 g2)
               in if length (groupMapAt h5 degreeGroups1) \<noteq> length (groupMapAt h5 degreeGroups2) then
                    (Inr (\<lparr>isIsomorphic = Some False,
                           reason = Some ''Different number of degree groups'',
                           invariantCheck = ic, mapping = None, permutationsChecked = None,
                           optimized = None\<rparr>, []), h5)
                  else
                    (let (degrees, h6) = alloc (NumberArray (map fst (groupMapAt h5 degreeGroups1))) h5;
                         (start, h7) = alloc (VertexMap []) h6
                     in case heapSearch g1 g2 (onProgress opts) degreeGroups1 degreeGroups2
                               (numberArrayAt h7 degrees) start (h7, 0, []) of
                          (Thrown, (h8, checkedCount, log)) \<Rightarrow> (Inl TypeError, h8)
                        | (Found m, (h8, checkedCount, log)) \<Rightarrow>
                            (Inr (\<lparr>isIsomorphic = Some True, reason = None, invariantCheck = ic,
                                   mapping = Some (fromEntries (vertexMapAt h8 m)),
                                   permutationsChecked = Some checkedCount,
                                   optimized = Some True\<rparr>, log), h8)
                        | (Exhausted, (h8, checkedCount, log)) \<Rightarrow>
                            (Inr (\<lparr>isIsomorphic = Some False, reason = Some ''No valid mapping found'',
                                   invariantCheck = ic, mapping = None,
                                   permutationsChecked = Some checkedCount,
                                   optimized = Some True\<rparr>, log), h8)))))"

subsection \<open>A graph value as objects on the heap\<close>

text \<open>Creates the neighbour arrays, the adjacency map, the vertex set, the edge array and
  the graph object of a graph; the reference returned is that of the graph object.\<close>

fun allocNeighbors :: "(vertex \<times> vertex list) list \<Rightarrow> heap \<Rightarrow> (vertex \<times> nat) list \<times> heap" where
  "allocNeighbors [] h = ([], h)"
| "allocNeighbors ((k, ns) # rest) h =
     (let (r, h1) = alloc (VertexArray ns) h;
          (al, h2) = allocNeighbors rest h1
      in ((k, r) # al, h2))"

definition allocGraph :: "vertex graph \<Rightarrow> heap \<Rightarrow> nat \<times> heap" where
  "allocGraph g h =
     (let (al, h1) = allocNeighbors (adjacencyList g) h;
          (a, h2) = alloc (AdjacencyMap al) h1;
          (v, h3) = alloc (VertexSet (vertices g)) h2;
          (e, h4) = alloc (EdgeArray (edges g)) h3
      in alloc (GraphObject (isDirected g) a v e) h4)"

text \<open>The heap holding just two graphs, with their references.\<close>

definition twoGraphs :: "vertex graph \<Rightarrow> vertex graph \<Rightarrow> nat \<times> nat \<times> heap" where
  "twoGraphs ga gb =
     (let (r1, h1) = allocGraph ga [];
          (r2, h2) = allocGraph gb h1
      in (r1, r2, h2))"

subsection \<open>Frames\<close>

text \<open>From \<open>h\<close> to \<open>h'\<close> no object was removed and every object of \<open>h\<close> whose reference
  satisfies \<open>P\<close> is unchanged.\<close>

definition keeps :: "(nat \<Rightarrow> bool) \<Rightarrow> heap \<Rightarrow> heap \<Rightarrow> bool" where
  "keeps P h h' \<longleftrightarrow> length h \<le> length h' \<and> (\<forall>a < length h. P a \<longrightarrow> h' ! a = h ! a)"

text \<open>The arrays a map of degree groups refers to were all created at or after \<open>m\<close>.\<close>

definition groupsFresh :: "nat \<Rightarrow> nat \<Rightarrow> heap \<Rightarrow> bool" where
  "groupsFresh m groups h \<longleftrightarrow> m \<le> length h \<and> (\<forall>(d, r) \<in> set (groupMapAt h groups). m \<le> r)"

text \<open>Two graphs of one edge each, and the heap that holds just them.\<close>

definition edgeAB :: "vertex graph" where
  "edgeAB = buildGraph [AddEdge (Str ''a'') (Str ''b'')]"

definition edge12 :: "vertex graph" where
  "edge12 = buildGraph [AddEdge (Num 1) (Num 2)]"

definition edgeHeap :: heap where
  "edgeHeap = snd (snd (twoGraphs edgeAB edge12))"

text \<open>The heap that holds the path A - B - C and the triangle 1 - 2 - 3, and the heap that
  holds the thirteen isolated vertices.\<close>

definition pathTriangleHeap :: heap where
  "pathTriangleHeap = snd (snd (twoGraphs pathABC triangle123))"

definition thirteenHeap :: heap where
  "thirteenHeap = snd (allocGraph thirteen [])"

section \<open>Decimal rendering and \<^verbatim>\<open>JSON.stringify\<close> are injective\<close>

lemma digit_inj: "a < 10 \<Longrightarrow> b < 10 \<Longrightarrow> digit a = digit b \<Longrightarrow> a = b"
  unfolding digit_def
  by (simp add: nth_eq_iff_index_eq)

lemma digit_is_digit: "digit d \<in> set ''0123456789''"
  unfolding digit_def by (rule nth_mem) simp

lemma digit_not_comma: "digit d \<noteq> CHR '',''"
  using digit_is_digit[of d] by auto

lemma show_nat_nonempty: "show_nat n \<noteq> []"
  by (subst show_nat.simps) simp

lemma show_nat_len1: "length (show_nat n) = Suc 0 \<longleftrightarrow> n < 10"
  by (subst show_nat.simps) (simp add: show_nat_nonempty)

lemma show_nat_inj: "show_nat n = show_nat m \<Longrightarrow> n = m"
proof (induction n arbitrary: m rule: show_nat.induct)
  case (1 n)
  show ?case
  proof (cases "n < 10")
    case True
    then have "length (show_nat n) = Suc 0" by (simp add: show_nat_len1)
    then have m: "m < 10" using "1.prems" by (simp add: show_nat_len1)
    from True m "1.prems" show ?thesis
      by (simp add: show_nat.simps[of n] show_nat.simps[of m] digit_inj)
  next
    case False
    then have "length (show_nat n) \<noteq> Suc 0" by (simp add: show_nat_len1)
    then have m: "\<not> m < 10" using "1.prems" by (simp add: show_nat_len1)
    from False m "1.prems" have a: "show_nat (n div 10) = show_nat (m div 10)"
      and b: "digit (n mod 10) = digit (m mod 10)"
      by (simp_all add: show_nat.simps[of n] show_nat.simps[of m])
    from "1.IH"[OF False a] have "n div 10 = m div 10" .
    moreover from b have "n mod 10 = m mod 10" by (intro digit_inj) simp_all
    ultimately show ?thesis by (metis div_mult_mod_eq)
  qed
qed

lemma show_nat_no_comma: "CHR '','' \<notin> set (show_nat n)"
proof (induction n rule: show_nat.induct)
  case (1 n)
  show ?case
  proof (cases "n < 10")
    case True
    then show ?thesis using digit_not_comma[of n] by (subst show_nat.simps) auto
  next
    case False
    with 1 show ?thesis using digit_not_comma[of "n mod 10"]
      by (subst show_nat.simps) auto
  qed
qed

text \<open>Fields that contain no comma are recovered from their comma-separated join.\<close>

lemma comma_split:
  assumes "CHR '','' \<notin> set a" "CHR '','' \<notin> set b" "a @ CHR '','' # r = b @ CHR '','' # s"
  shows "a = b \<and> r = s"
proof -
  have tw: "takeWhile (\<lambda>c. c \<noteq> CHR '','') (x @ CHR '','' # y) = x" if "CHR '','' \<notin> set x" for x y
    using that by (induction x) auto
  have "takeWhile (\<lambda>c. c \<noteq> CHR '','') (a @ CHR '','' # r) = a"
    using assms(1) by (rule tw)
  moreover have "takeWhile (\<lambda>c. c \<noteq> CHR '','') (b @ CHR '','' # s) = b"
    using assms(2) by (rule tw)
  ultimately have "a = b" using assms(3) by simp
  with assms(3) show ?thesis by simp
qed

lemma join_comma_inj:
  assumes "\<forall>s \<in> set xs. s \<noteq> [] \<and> CHR '','' \<notin> set s"
      and "\<forall>s \<in> set ys. s \<noteq> [] \<and> CHR '','' \<notin> set s"
      and "join_comma xs = join_comma ys"
  shows "xs = ys"
  using assms
proof (induction xs arbitrary: ys rule: join_comma.induct)
  case 1
  then show ?case by (cases ys rule: join_comma.cases) auto
next
  case (2 s)
  show ?case
  proof (cases ys rule: join_comma.cases)
    case 1 with 2 show ?thesis by auto
  next
    case (2 t) with "2.prems" show ?thesis by auto
  next
    case (3 t u us)
    with "2.prems" have "s = t @ CHR '','' # join_comma (u # us)" by simp
    with "2.prems"(1) show ?thesis by auto
  qed
next
  case (3 s t ts)
  show ?case
  proof (cases ys rule: join_comma.cases)
    case 1 with 3 show ?thesis by auto
  next
    case (2 u)
    with "3.prems" have "u = s @ CHR '','' # join_comma (t # ts)" by simp
    with "3.prems"(2) 2 show ?thesis by auto
  next
    case (3 u w ws)
    with "3.prems" have e: "s @ CHR '','' # join_comma (t # ts) = u @ CHR '','' # join_comma (w # ws)"
      by simp
    have "s = u \<and> join_comma (t # ts) = join_comma (w # ws)"
      using "3.prems"(1,2) 3 by (intro comma_split[OF _ _ e]) auto
    moreover then have "t # ts = w # ws"
      using "3.prems"(1,2) 3 by (intro "3.IH") auto
    ultimately show ?thesis using 3 by simp
  qed
qed

lemma JSON_stringify_inj: "JSON_stringify xs = JSON_stringify ys \<longleftrightarrow> xs = ys"
proof
  assume "JSON_stringify xs = JSON_stringify ys"
  then have "join_comma (map show_nat xs) = join_comma (map show_nat ys)"
    by (simp add: JSON_stringify_def)
  then have "map show_nat xs = map show_nat ys"
    by (intro join_comma_inj) (auto simp: show_nat_nonempty show_nat_no_comma)
  then show "xs = ys"
    by (metis show_nat_inj inj_onI inj_map_eq_map)
qed simp

section \<open>Graphs built through the public operations keep their invariants\<close>

lemma areAdjacent_iff:
  "areAdjacent g u v \<longleftrightarrow> (\<exists>ns. map_of (adjacencyList g) u = Some ns \<and> v \<in> set ns)"
  by (cases "map_of (adjacencyList g) u") (auto simp: areAdjacent_def)

lemma getNeighbors_iff:
  "v \<in> set (getNeighbors g u) \<longleftrightarrow> areAdjacent g u v"
  by (cases "map_of (adjacencyList g) u") (auto simp: areAdjacent_def getNeighbors_def)

lemma map_of_None_iff_key: "map_of al k = None \<longleftrightarrow> k \<notin> fst ` set al"
  by (simp add: map_of_eq_None_iff)

lemma addVertex_keys_ok: "keys_ok g \<Longrightarrow> keys_ok (addVertex x g)"
  by (auto simp: keys_ok_def addVertex_def dom_update)

lemma addVertex_mem: "x \<in> set (vertices (addVertex x g))"
  by (auto simp: addVertex_def)

lemma addVertex_mono: "set (vertices g) \<subseteq> set (vertices (addVertex x g))"
  by (auto simp: addVertex_def)

lemma addVertex_distinct: "distinct (vertices g) \<Longrightarrow> distinct (vertices (addVertex x g))"
  by (auto simp: addVertex_def)

lemma addVertex_edges [simp]: "edges (addVertex x g) = edges g"
  by (simp add: addVertex_def)

lemma addVertex_isDirected [simp]: "isDirected (addVertex x g) = isDirected g"
  by (simp add: addVertex_def)

lemma addVertex_areAdjacent:
  "keys_ok g \<Longrightarrow> areAdjacent (addVertex x g) u v = areAdjacent g u v"
  by (auto simp: areAdjacent_iff addVertex_def update_conv' keys_ok_def
      map_of_None_iff_key[symmetric])

lemma pushNeighbor_ok:
  assumes "k \<in> fst ` set al"
  obtains ns where "map_of al k = Some ns"
    and "pushNeighbor k x al = Inr (AList.update k (ns @ [x]) al)"
proof -
  from assms obtain ns where "map_of al k = Some ns"
    by (metis map_of_None_iff_key not_Some_eq)
  then show ?thesis using that by (simp add: pushNeighbor_def)
qed

lemma addEdge_undirected:
  assumes k: "keys_ok g0" and u: "\<not> isDirected g0"
  obtains g where "addEdge a b g0 = Inr g" "keys_ok g" "\<not> isDirected g"
    "set (vertices g) = insert a (insert b (set (vertices g0)))"
    "edges g = edges g0 @ [(a, b)]"
    "\<And>u v. areAdjacent g u v \<longleftrightarrow> areAdjacent g0 u v \<or> (u = a \<and> v = b) \<or> (u = b \<and> v = a)"
    "distinct (vertices g0) \<Longrightarrow> distinct (vertices g)"
proof -
  define g1 where "g1 = addVertex b (addVertex a g0)"
  have k1: "keys_ok g1" unfolding g1_def by (intro addVertex_keys_ok k)
  have v1: "set (vertices g1) = insert a (insert b (set (vertices g0)))"
    unfolding g1_def by (auto simp: addVertex_def)
  have adj1: "areAdjacent g1 u v = areAdjacent g0 u v" for u v
    unfolding g1_def by (simp add: addVertex_areAdjacent addVertex_keys_ok k)
  have "a \<in> fst ` set (adjacencyList g1)" using k1 v1 by (simp add: keys_ok_def)
  then obtain ns where ns: "map_of (adjacencyList g1) a = Some ns"
    and p1: "pushNeighbor a b (adjacencyList g1) = Inr (AList.update a (ns @ [b]) (adjacencyList g1))"
    by (rule pushNeighbor_ok)
  define al2 where "al2 = AList.update a (ns @ [b]) (adjacencyList g1)"
  have "b \<in> fst ` set al2" using k1 v1 by (simp add: keys_ok_def al2_def dom_update)
  then obtain ms where ms: "map_of al2 b = Some ms"
    and p2: "pushNeighbor b a al2 = Inr (AList.update b (ms @ [a]) al2)"
    by (rule pushNeighbor_ok)
  define g where "g = g1\<lparr>adjacencyList := AList.update b (ms @ [a]) al2, edges := edges g1 @ [(a, b)]\<rparr>"
  have d1: "\<not> isDirected g1" using u by (simp add: g1_def)
  have r: "addEdge a b g0 = Inr g"
    using d1 p1 p2 by (simp add: addEdge_def g1_def[symmetric] Let_def al2_def[symmetric] g_def)
  have "keys_ok g" using k1 v1 by (auto simp: keys_ok_def g_def al2_def dom_update)
  moreover have "\<not> isDirected g" using u by (simp add: g_def g1_def)
  moreover have "set (vertices g) = insert a (insert b (set (vertices g0)))"
    using v1 by (simp add: g_def)
  moreover have "edges g = edges g0 @ [(a, b)]" by (simp add: g_def g1_def)
  moreover have "areAdjacent g u v \<longleftrightarrow> areAdjacent g0 u v \<or> (u = a \<and> v = b) \<or> (u = b \<and> v = a)" for u v
  proof -
    have "areAdjacent g u v \<longleftrightarrow> areAdjacent g1 u v \<or> (u = a \<and> v = b) \<or> (u = b \<and> v = a)"
      using ns ms by (auto simp: areAdjacent_iff g_def al2_def update_conv' split: if_splits)
    then show ?thesis by (simp add: adj1)
  qed
  moreover have "distinct (vertices g0) \<Longrightarrow> distinct (vertices g)"
    by (simp add: g_def g1_def addVertex_distinct)
  ultimately show ?thesis using r that by blast
qed

lemma built_inv_Graph: "built_inv (Graph False)"
  by (simp add: built_inv_def Graph_def keys_ok_def areAdjacent_iff)

lemma built_inv_addVertex: "built_inv g \<Longrightarrow> built_inv (addVertex x g)"
  unfolding built_inv_def
  using addVertex_mono[of g x]
  by (auto simp: addVertex_keys_ok addVertex_distinct addVertex_areAdjacent)

lemma built_inv_addEdge:
  assumes "built_inv g"
  obtains g' where "addEdge a b g = Inr g'" "built_inv g'"
proof -
  from assms have k: "keys_ok g" and u: "\<not> isDirected g" by (simp_all add: built_inv_def)
  from k u obtain g' where g': "addEdge a b g = Inr g'" "keys_ok g'" "\<not> isDirected g'"
    "set (vertices g') = insert a (insert b (set (vertices g)))"
    "edges g' = edges g @ [(a, b)]"
    "\<And>u v. areAdjacent g' u v \<longleftrightarrow> areAdjacent g u v \<or> (u = a \<and> v = b) \<or> (u = b \<and> v = a)"
    "distinct (vertices g) \<Longrightarrow> distinct (vertices g')"
    by (rule addEdge_undirected[of g a b]) blast
  have "built_inv g'"
    using assms g'(2-7) unfolding built_inv_def by auto
  with g'(1) show ?thesis using that by blast
qed

lemma applyAll_built:
  "built_inv g \<Longrightarrow> \<exists>g'. applyAll xs g = Inr g' \<and> built_inv g'"
proof (induction xs arbitrary: g)
  case Nil
  then show ?case by simp
next
  case (Cons x xs)
  show ?case
  proof (cases x)
    case (AddVertex v)
    with Cons.IH[OF built_inv_addVertex[OF Cons.prems, of v]] show ?thesis by simp
  next
    case (AddEdge a b)
    from Cons.prems obtain g1 where g1: "addEdge a b g = Inr g1" "built_inv g1"
      by (rule built_inv_addEdge)
    with Cons.IH[OF g1(2)] AddEdge show ?thesis by simp
  qed
qed

lemma addEdge_directed:
  assumes k: "keys_ok g0" and u: "isDirected g0"
  obtains g where "addEdge a b g0 = Inr g" "keys_ok g" "isDirected g"
    "set (vertices g) = insert a (insert b (set (vertices g0)))"
    "edges g = edges g0 @ [(a, b)]"
    "distinct (vertices g0) \<Longrightarrow> distinct (vertices g)"
proof -
  define g1 where "g1 = addVertex b (addVertex a g0)"
  have k1: "keys_ok g1" unfolding g1_def by (intro addVertex_keys_ok k)
  have v1: "set (vertices g1) = insert a (insert b (set (vertices g0)))"
    unfolding g1_def by (auto simp: addVertex_def)
  have "a \<in> fst ` set (adjacencyList g1)" using k1 v1 by (simp add: keys_ok_def)
  then obtain ns where ns: "map_of (adjacencyList g1) a = Some ns"
    and p1: "pushNeighbor a b (adjacencyList g1) = Inr (AList.update a (ns @ [b]) (adjacencyList g1))"
    by (rule pushNeighbor_ok)
  define g where "g = g1\<lparr>adjacencyList := AList.update a (ns @ [b]) (adjacencyList g1),
      edges := edges g1 @ [(a, b)]\<rparr>"
  have d1: "isDirected g1" using u by (simp add: g1_def)
  have r: "addEdge a b g0 = Inr g"
    using d1 p1 by (simp add: addEdge_def g1_def[symmetric] Let_def g_def)
  have "keys_ok g" using k1 v1 by (auto simp: keys_ok_def g_def dom_update)
  moreover have "isDirected g" using d1 by (simp add: g_def)
  moreover have "set (vertices g) = insert a (insert b (set (vertices g0)))"
    using v1 by (simp add: g_def)
  moreover have "edges g = edges g0 @ [(a, b)]" by (simp add: g_def g1_def)
  moreover have "distinct (vertices g0) \<Longrightarrow> distinct (vertices g)"
    by (simp add: g_def g1_def addVertex_distinct)
  ultimately show ?thesis using r that by blast
qed

lemma graph_ok_Graph: "graph_ok (Graph d)"
  by (simp add: graph_ok_def keys_ok_def edges_ok_def Graph_def)

lemma graph_ok_addVertex: "graph_ok g \<Longrightarrow> graph_ok (addVertex x g)"
  using addVertex_mono[of g x]
  by (auto simp: graph_ok_def edges_ok_def addVertex_keys_ok addVertex_distinct)

lemma graph_ok_addEdge:
  assumes "graph_ok g"
  shows "\<exists>g'. addEdge a b g = Inr g' \<and> graph_ok g'"
proof (cases "isDirected g")
  case True
  from assms have k: "keys_ok g" by (simp add: graph_ok_def)
  from k True obtain g' where "addEdge a b g = Inr g'" "keys_ok g'"
    "set (vertices g') = insert a (insert b (set (vertices g)))"
    "edges g' = edges g @ [(a, b)]" "distinct (vertices g) \<Longrightarrow> distinct (vertices g')"
    by (rule addEdge_directed[of g a b]) blast
  with assms show ?thesis by (auto simp: graph_ok_def edges_ok_def)
next
  case False
  from assms have k: "keys_ok g" by (simp add: graph_ok_def)
  from k False obtain g' where "addEdge a b g = Inr g'" "keys_ok g'"
    "set (vertices g') = insert a (insert b (set (vertices g)))"
    "edges g' = edges g @ [(a, b)]" "distinct (vertices g) \<Longrightarrow> distinct (vertices g')"
    by (rule addEdge_undirected[of g a b]) blast
  with assms show ?thesis by (auto simp: graph_ok_def edges_ok_def)
qed

lemma applyAll_graph_ok:
  "graph_ok g \<Longrightarrow> \<exists>g'. applyAll xs g = Inr g' \<and> graph_ok g'"
proof (induction xs arbitrary: g)
  case Nil
  then show ?case by simp
next
  case (Cons x xs)
  show ?case
  proof (cases x)
    case (AddVertex v)
    with Cons.IH[OF graph_ok_addVertex[OF Cons.prems, of v]] show ?thesis by simp
  next
    case (AddEdge a b)
    from graph_ok_addEdge[OF Cons.prems, of a b]
    obtain g1 where g1: "addEdge a b g = Inr g1" "graph_ok g1" by blast
    with Cons.IH[OF g1(2)] AddEdge show ?thesis by simp
  qed
qed

text \<open>Whatever is built from a new graph, directed or not, is built without an exception,
  has no vertex twice and has every edge between vertices.\<close>

lemma built_graph_ok:
  "\<exists>g. applyAll xs (Graph d) = Inr g \<and> distinct (vertices g) \<and> edges_ok g \<and> keys_ok g"
  using applyAll_graph_ok[OF graph_ok_Graph, of xs d] by (auto simp: graph_ok_def)

section \<open>The invariant checker and the degree groups\<close>

lemma isomorphismPossible_iff:
  "isomorphismPossible (checkInvariants g1 g2) \<longleftrightarrow>
     getVertexCount g1 = getVertexCount g2 \<and> getEdgeCount g1 = getEdgeCount g2 \<and>
     getDegreeSequence g1 = getDegreeSequence g2"
  by (simp add: checkInvariants_def Let_def JSON_stringify_inj)

lemma groupVertex_keys:
  "fst ` set (groupVertex g groups v) = insert (getDegree g v) (fst ` set groups)"
  by (auto simp: groupVertex_def Let_def dom_update split: option.splits)

lemma groupVertex_distinct:
  "distinct (map fst groups) \<Longrightarrow> distinct (map fst (groupVertex g groups v))"
  by (auto simp: groupVertex_def Let_def distinct_update split: option.splits)

lemma foldl_groupVertex_keys:
  "fst ` set (foldl (groupVertex g) groups vs) = fst ` set groups \<union> getDegree g ` set vs"
  by (induction vs arbitrary: groups) (auto simp: groupVertex_keys)

lemma foldl_groupVertex_distinct:
  "distinct (map fst groups) \<Longrightarrow> distinct (map fst (foldl (groupVertex g) groups vs))"
  by (induction vs arbitrary: groups) (auto simp: groupVertex_distinct)

lemma degreeGroups_keys: "set (map fst (degreeGroups g)) = getDegree g ` set (vertices g)"
  using foldl_groupVertex_keys[of g "[]" "vertices g"] by (simp add: degreeGroups_def)

lemma degreeGroups_distinct: "distinct (map fst (degreeGroups g))"
  using foldl_groupVertex_distinct[of "[]" g "vertices g"] by (simp add: degreeGroups_def)

lemma length_degreeGroups: "length (degreeGroups g) = card (getDegree g ` set (vertices g))"
proof -
  have "length (degreeGroups g) = length (map fst (degreeGroups g))" by simp
  also have "\<dots> = card (set (map fst (degreeGroups g)))"
    using degreeGroups_distinct by (rule distinct_card[symmetric])
  finally show ?thesis by (simp only: degreeGroups_keys)
qed

lemma set_getDegreeSequence: "set (getDegreeSequence g) = getDegree g ` set (vertices g)"
  by (simp add: getDegreeSequence_def)

lemma invariants_imp_same_group_count:
  assumes "isomorphismPossible (checkInvariants g1 g2)"
  shows "length (degreeGroups g1) = length (degreeGroups g2)"
proof -
  from assms have "getDegreeSequence g1 = getDegreeSequence g2"
    by (simp add: isomorphismPossible_iff)
  then have "getDegree g1 ` set (vertices g1) = getDegree g2 ` set (vertices g2)"
    by (metis set_getDegreeSequence)
  then show ?thesis by (simp add: length_degreeGroups)
qed

lemma getDegreeSequence_sorted: "sorted (rev (getDegreeSequence g))"
  by (simp add: getDegreeSequence_def)

lemma getDegreeSequence_mset:
  "mset (getDegreeSequence g) = mset (map (getDegree g) (vertices g))"
  by (simp add: getDegreeSequence_def)

lemma permute_Nil: "permute [] = [ [] ]"
  by (simp add: permute.simps)

section \<open>The brute-force search decides isomorphism\<close>

lemma mset_remove_nth:
  "i < length xs \<Longrightarrow> add_mset (xs ! i) (mset (take i xs @ drop (Suc i) xs)) = mset xs"
proof -
  assume "i < length xs"
  then have "xs = take i xs @ xs ! i # drop (Suc i) xs" by (rule id_take_nth_drop)
  then have "mset xs = mset (take i xs @ xs ! i # drop (Suc i) xs)" by simp
  then show ?thesis by simp
qed

lemma permute_set: "set (permute xs) = {ys. mset ys = mset xs}"
proof (induction xs rule: permute.induct)
  case (1 arr)
  show ?case
  proof (cases "length arr \<le> 1")
    case True
    then consider "arr = []" | a where "arr = [a]"
      by (cases arr) auto
    then show ?thesis
    proof cases
      case 1
      then show ?thesis by (simp add: permute.simps)
    next
      case 2
      then show ?thesis by (auto simp: permute.simps mset_single_iff_right)
    qed
  next
    case False
    have IH: "set (permute (take i arr @ drop (Suc i) arr)) = {ys. mset ys = mset (take i arr @ drop (Suc i) arr)}"
      if "i < length arr" for i
      using "1.IH"[OF False, of i] that by simp
    have ps: "set (permute arr) = (\<Union>i \<in> {..<length arr}. (#) (arr ! i) ` set (permute (take i arr @ drop (Suc i) arr)))"
      using False by (subst permute.simps) (auto simp: atLeast0LessThan)
    show ?thesis
    proof (intro set_eqI iffI)
      fix ys assume "ys \<in> set (permute arr)"
      then obtain i zs where i: "i < length arr" and ys: "ys = arr ! i # zs"
        and zs: "zs \<in> set (permute (take i arr @ drop (Suc i) arr))"
        unfolding ps by auto
      from zs IH[OF i] have "mset zs = mset (take i arr @ drop (Suc i) arr)" by simp
      with mset_remove_nth[OF i] ys show "ys \<in> {ys. mset ys = mset arr}" by simp
    next
      fix ys assume "ys \<in> {ys. mset ys = mset arr}"
      then have m: "mset ys = mset arr" by simp
      then have "length ys = length arr" by (rule mset_eq_length)
      with False obtain y zs where ys: "ys = y # zs" by (cases ys) auto
      with m have "y \<in> set arr" by (metis list.set_intros(1) mset_eq_setD)
      then obtain i where i: "i < length arr" and y: "arr ! i = y"
        by (auto simp: in_set_conv_nth)
      from m ys mset_remove_nth[OF i] y
      have "add_mset y (mset zs) = add_mset y (mset (take i arr @ drop (Suc i) arr))" by simp
      then have "mset zs = mset (take i arr @ drop (Suc i) arr)" by (simp only: add_mset_add_mset_same_iff)
      with IH[OF i] have "zs \<in> set (permute (take i arr @ drop (Suc i) arr))" by simp
      with i y ys show "ys \<in> set (permute arr)" unfolding ps by auto
    qed
  qed
qed

lemma permute_nonempty: "permute xs \<noteq> []"
proof -
  have "xs \<in> set (permute xs)" by (simp add: permute_set)
  then show ?thesis by auto
qed

text \<open>The candidate mapping built from a permutation.\<close>

lemma map_of_zip_map_Some:
  "map_of (zip ks (map f vs)) k = map_option f (map_of (zip ks vs) k)"
proof (induction ks arbitrary: vs)
  case Nil
  then show ?case by simp
next
  case (Cons a ks)
  then show ?case by (cases vs) auto
qed

lemma map_of_setAll:
  "distinct ks \<Longrightarrow> length perm = length ks \<Longrightarrow>
   map_of (setAll ks perm m) = map_of m ++ map_of (zip ks (map Some perm))"
proof (induction ks arbitrary: perm m)
  case Nil
  then show ?case by simp
next
  case (Cons k ks)
  then obtain p ps where perm: "perm = p # ps" by (cases perm) auto
  with Cons.prems have d: "distinct ks" and l: "length ps = length ks" and k: "k \<notin> set ks"
    by auto
  from k l have nd: "k \<notin> dom (map_of (zip ks (map Some ps)))"
    by (simp add: domIff)
  have "map_of (setAll (k # ks) perm m) = map_of (AList.update k (Some p) m) ++ map_of (zip ks (map Some ps))"
    using Cons.IH[OF d l] perm by simp
  also have "\<dots> = (map_of m)(k \<mapsto> Some p) ++ map_of (zip ks (map Some ps))"
    by (simp add: update_conv')
  also have "\<dots> = (map_of m ++ map_of (zip ks (map Some ps)))(k \<mapsto> Some p)"
    using nd by (rule map_add_upd_left)
  also have "\<dots> = map_of m ++ map_of (zip (k # ks) (map Some perm))"
    using perm by simp
  finally show ?case .
qed

lemma mapGet_setAll:
  assumes "distinct ks" "length perm = length ks"
  shows "mapGet (setAll ks perm []) k = map_of (zip ks perm) k"
proof -
  have unwrap: "(case map_option Some x of None \<Rightarrow> None | Some y \<Rightarrow> y) = x" for x :: "'b option"
    by (cases x) simp_all
  have "map_of (setAll ks perm []) k = map_option Some (map_of (zip ks perm) k)"
    using assms by (simp add: map_of_setAll map_of_zip_map_Some)
  then show ?thesis by (simp only: mapGet_def unwrap)
qed


text \<open>The brute-force loop finds a mapping exactly when some permutation passes the check.\<close>

lemma bruteLoop_None_iff:
  "fst (bruteLoop g1 g2 vs report n perms c log) = None \<longleftrightarrow>
     (\<forall>perm \<in> set perms. \<not> isValidMapping g1 g2 (setAll vs perm []))"
  by (induction perms arbitrary: c log) (auto simp: Let_def)

lemma bruteLoop_Some:
  "fst (bruteLoop g1 g2 vs report n perms c log) = Some m \<Longrightarrow>
     \<exists>perm \<in> set perms. m = setAll vs perm [] \<and> isValidMapping g1 g2 m"
  by (induction perms arbitrary: c log) (auto simp: Let_def split: if_splits)

lemma isValidMapping_setAll:
  assumes "distinct (vertices g1)" "length perm = length (vertices g1)"
  shows "isValidMapping g1 g2 (setAll (vertices g1) perm []) \<longleftrightarrow>
     (\<forall>u \<in> set (vertices g1). \<forall>v \<in> set (vertices g1).
        areAdjacent g1 u v =
        areAdjacent g2 (the (map_of (zip (vertices g1) perm) u)) (the (map_of (zip (vertices g1) perm) v)))"
proof -
  have s: "\<exists>y. map_of (zip (vertices g1) perm) u = Some y" if "u \<in> set (vertices g1)" for u
    using that assms(2) by (metis map_of_zip_is_None not_Some_eq)
  show ?thesis
    unfolding isValidMapping_def Let_def list_all_iff mapGet_setAll[OF assms]
    apply (intro ball_cong refl)
    subgoal for u v using s[of u] s[of v] by (auto simp: areAdjacentMapped_def)
    done
qed

lemma zip_perm_bij:
  assumes "distinct xs" "distinct ys" "length ys = length xs"
  shows "bij_betw (\<lambda>u. the (map_of (zip xs ys) u)) (set xs) (set ys)"
proof -
  have nth: "the (map_of (zip xs ys) (xs ! i)) = ys ! i" if "i < length xs" for i
    using map_of_zip_nth[of xs ys i] assms that by simp
  show ?thesis
    unfolding bij_betw_def
  proof
    show "inj_on (\<lambda>u. the (map_of (zip xs ys) u)) (set xs)"
    proof (rule inj_onI)
      fix u v assume "u \<in> set xs" "v \<in> set xs"
        and e: "the (map_of (zip xs ys) u) = the (map_of (zip xs ys) v)"
      then obtain i j where i: "i < length xs" "xs ! i = u" and j: "j < length xs" "xs ! j = v"
        by (auto simp: in_set_conv_nth)
      with e nth[of i] nth[of j] have "ys ! i = ys ! j" by simp
      with assms i j have "i = j" by (simp add: nth_eq_iff_index_eq)
      with i j show "u = v" by simp
    qed
  next
    show "(\<lambda>u. the (map_of (zip xs ys) u)) ` set xs = set ys"
    proof (intro set_eqI iffI)
      fix y assume "y \<in> (\<lambda>u. the (map_of (zip xs ys) u)) ` set xs"
      then obtain i where "i < length xs" "y = the (map_of (zip xs ys) (xs ! i))"
        by (auto simp: in_set_conv_nth)
      with nth[of i] assms(3) show "y \<in> set ys" by simp
    next
      fix y assume "y \<in> set ys"
      then obtain i where i: "i < length ys" "ys ! i = y" by (auto simp: in_set_conv_nth)
      with assms(3) nth[of i] have "y = the (map_of (zip xs ys) (xs ! i))" "xs ! i \<in> set xs"
        by simp_all
      then show "y \<in> (\<lambda>u. the (map_of (zip xs ys) u)) ` set xs" by blast
    qed
  qed
qed

lemma search_complete:
  assumes d1: "distinct (vertices g1)" and d2: "distinct (vertices g2)"
    and len: "length (vertices g1) = length (vertices g2)"
  shows "(\<exists>perm \<in> set (permute (vertices g2)). isValidMapping g1 g2 (setAll (vertices g1) perm []))
         \<longleftrightarrow> (\<exists>f. isomorphism g1 g2 f)"
proof
  assume "\<exists>perm \<in> set (permute (vertices g2)). isValidMapping g1 g2 (setAll (vertices g1) perm [])"
  then obtain perm where m: "mset perm = mset (vertices g2)"
    and v: "isValidMapping g1 g2 (setAll (vertices g1) perm [])"
    by (auto simp: permute_set)
  from m have l: "length perm = length (vertices g1)" using len by (metis mset_eq_length)
  from m d2 have dp: "distinct perm" by (metis mset_eq_imp_distinct_iff)
  from m have sp: "set perm = set (vertices g2)" by (rule mset_eq_setD)
  let ?f = "\<lambda>u. the (map_of (zip (vertices g1) perm) u)"
  have "bij_betw ?f (set (vertices g1)) (set (vertices g2))"
    using zip_perm_bij[OF d1 dp l] sp by simp
  with v show "\<exists>f. isomorphism g1 g2 f"
    unfolding isomorphism_def isValidMapping_setAll[OF d1 l] by blast
next
  assume "\<exists>f. isomorphism g1 g2 f"
  then obtain f where b: "bij_betw f (set (vertices g1)) (set (vertices g2))"
    and a: "\<forall>u \<in> set (vertices g1). \<forall>v \<in> set (vertices g1).
        areAdjacent g1 u v = areAdjacent g2 (f u) (f v)"
    by (auto simp: isomorphism_def)
  let ?perm = "map f (vertices g1)"
  from b have "inj_on f (set (vertices g1))" "f ` set (vertices g1) = set (vertices g2)"
    by (auto simp: bij_betw_def)
  then have "distinct ?perm" "set ?perm = set (vertices g2)"
    using d1 by (auto simp: distinct_map)
  with d2 have "mset ?perm = mset (vertices g2)"
    by (metis set_eq_iff_mset_eq_distinct)
  then have "?perm \<in> set (permute (vertices g2))" by (simp add: permute_set)
  moreover have "isValidMapping g1 g2 (setAll (vertices g1) ?perm [])"
    unfolding isValidMapping_setAll[OF d1 length_map] using a
    by (simp add: map_of_zip_map)
  ultimately show "\<exists>perm \<in> set (permute (vertices g2)). isValidMapping g1 g2 (setAll (vertices g1) perm [])"
    by blast
qed

lemma isomorphism_inverse:
  assumes "isomorphism g1 g2 f"
  shows "isomorphism g2 g1 (the_inv_into (set (vertices g1)) f)"
proof -
  let ?V1 = "set (vertices g1)" and ?V2 = "set (vertices g2)"
  let ?h = "the_inv_into ?V1 f"
  from assms have b: "bij_betw f ?V1 ?V2"
    and a: "\<And>u v. u \<in> ?V1 \<Longrightarrow> v \<in> ?V1 \<Longrightarrow> areAdjacent g1 u v = areAdjacent g2 (f u) (f v)"
    by (auto simp: isomorphism_def)
  have bh: "bij_betw ?h ?V2 ?V1" using b by (rule bij_betw_the_inv_into)
  have "areAdjacent g2 x y = areAdjacent g1 (?h x) (?h y)" if "x \<in> ?V2" "y \<in> ?V2" for x y
  proof -
    from that bh have "?h x \<in> ?V1" "?h y \<in> ?V1" by (auto simp: bij_betw_def)
    moreover from that b have "f (?h x) = x" "f (?h y) = y"
      by (auto simp: f_the_inv_into_f_bij_betw)
    ultimately show ?thesis using a[of "?h x" "?h y"] by simp
  qed
  with bh show ?thesis by (simp add: isomorphism_def)
qed

lemma isomorphism_sym: "(\<exists>f. isomorphism g1 g2 f) \<longleftrightarrow> (\<exists>f. isomorphism g2 g1 f)"
  using isomorphism_inverse by blast

lemma detectIsomorphism_verdict:
  "isIsomorphic (fst (detectIsomorphism g1 g2 opts)) =
     (if \<not> isomorphismPossible (checkInvariants g1 g2) then Some False
      else if int (getVertexCount g1) > ceiling_of 10 opts then None
      else Some (\<exists>perm \<in> set (permute (vertices g2)).
                   isValidMapping g1 g2 (setAll (vertices g1) perm [])))"
proof -
  obtain found c log where r:
    "bruteLoop g1 g2 (vertices g1) (onProgress opts) (length (permute (vertices g2)))
       (permute (vertices g2)) 0 [] = (found, c, log)"
    by (cases "bruteLoop g1 g2 (vertices g1) (onProgress opts) (length (permute (vertices g2)))
       (permute (vertices g2)) 0 []") auto
  have n: "found = None \<longleftrightarrow>
      (\<forall>perm \<in> set (permute (vertices g2)). \<not> isValidMapping g1 g2 (setAll (vertices g1) perm []))"
    using bruteLoop_None_iff[of g1 g2 "vertices g1" "onProgress opts"
        "length (permute (vertices g2))" "permute (vertices g2)" 0 "[]"] r by simp
  show ?thesis
    using r n by (cases found) (auto simp: detectIsomorphism_def Let_def ceiling_of_def)
qed

lemma detectIsomorphism_decides:
  assumes "distinct (vertices g1)" "distinct (vertices g2)"
    and "isomorphismPossible (checkInvariants g1 g2)"
    and "int (getVertexCount g1) \<le> ceiling_of 10 opts"
  shows "isIsomorphic (fst (detectIsomorphism g1 g2 opts)) = Some (\<exists>f. isomorphism g1 g2 f)"
proof -
  from assms(3) have "length (vertices g1) = length (vertices g2)"
    by (simp add: isomorphismPossible_iff getVertexCount_def)
  from search_complete[OF assms(1,2) this] assms(3,4) show ?thesis
    by (simp add: detectIsomorphism_verdict)
qed

lemma isomorphismPossible_sym:
  "isomorphismPossible (checkInvariants g1 g2) = isomorphismPossible (checkInvariants g2 g1)"
  by (auto simp: isomorphismPossible_iff)

section \<open>The mapping returned by the brute-force search\<close>

lemma setAll_keys:
  "distinct (map fst m @ ks) \<Longrightarrow> map fst (setAll ks perm m) = map fst m @ ks"
proof (induction ks arbitrary: perm m)
  case Nil
  then show ?case by simp
next
  case (Cons k ks)
  let ?m = "AList.update k (case perm of [] \<Rightarrow> None | p # _ \<Rightarrow> Some p) m"
  from Cons.prems have k: "k \<notin> fst ` set m" by auto
  then have keys: "map fst ?m = map fst m @ [k]" by (simp add: update_keys)
  with Cons.prems have "distinct (map fst ?m @ ks)" by auto
  from Cons.IH[OF this] keys show ?case by simp
qed

lemma map_of_fromEntries_aux:
  "map_of (foldl (\<lambda>obj (k, v). AList.update (propertyKey k) v obj) obj m) s =
     (case map_of (rev (map (\<lambda>(k, v). (propertyKey k, v)) m)) s of
        None \<Rightarrow> map_of obj s
      | Some v \<Rightarrow> Some v)"
proof (induction m arbitrary: obj)
  case Nil
  then show ?case by simp
next
  case (Cons e m)
  obtain k v where e: "e = (k, v)" by (cases e)
  show ?case
    by (simp add: e Cons.IH update_conv' map_add_def split: option.split)
qed

lemma map_of_keyed:
  assumes "inj_on propertyKey (insert k (fst ` set m))"
  shows "map_of (map (\<lambda>(k, v). (propertyKey k, v)) m) (propertyKey k) = map_of m k"
  using assms
proof (induction m)
  case Nil
  then show ?case by simp
next
  case (Cons e m)
  obtain k' v where e: "e = (k', v)" by (cases e)
  from Cons.prems have i: "inj_on propertyKey (insert k (fst ` set m))"
    by (rule inj_on_subset) auto
  from Cons.prems e have "propertyKey k' = propertyKey k \<longleftrightarrow> k' = k"
    by (auto simp: inj_on_def)
  with Cons.IH[OF i] e show ?case by auto
qed

lemma map_of_rev_distinct: "distinct (map fst xs) \<Longrightarrow> map_of (rev xs) = map_of xs"
proof (induction xs)
  case Nil
  then show ?case by simp
next
  case (Cons x xs)
  then have "map_of xs (fst x) = None" by (simp add: map_of_eq_None_iff)
  with Cons show ?case
    by (auto simp: fun_eq_iff map_add_def split: option.split)
qed

lemma objGet_fromEntries:
  assumes d: "distinct (map (propertyKey \<circ> fst) m)"
    and i: "inj_on propertyKey (insert k (fst ` set m))"
  shows "objGet (fromEntries m) k = mapGet m k"
proof -
  let ?km = "map (\<lambda>(k, v). (propertyKey k, v)) m"
  have e: "map fst ?km = map (propertyKey \<circ> fst) m" by (induction m) auto
  from d have "distinct (map fst ?km)" unfolding e .
  then have "map_of (rev ?km) = map_of ?km" by (rule map_of_rev_distinct)
  then have "map_of (fromEntries m) (propertyKey k) = map_of ?km (propertyKey k)"
    by (simp add: fromEntries_def map_of_fromEntries_aux split: option.split)
  also have "\<dots> = map_of m k" using i by (rule map_of_keyed)
  finally show ?thesis by (simp add: objGet_def mapGet_def)
qed


text \<open>What the brute-force search returns when it answers \<open>true\<close>: the object made from a
  mapping that is an isomorphism; read through property keys it still is one as long as
  no two vertices of the first graph share a property key.\<close>

lemma found_mapping_isomorphism:
  assumes d1: "distinct (vertices g1)" and d2: "distinct (vertices g2)"
    and len: "length (vertices g1) = length (vertices g2)"
    and perm: "perm \<in> set (permute (vertices g2))"
    and valid: "isValidMapping g1 g2 (setAll (vertices g1) perm [])"
    and same: "\<And>u. u \<in> set (vertices g1) \<Longrightarrow> f u = the (mapGet (setAll (vertices g1) perm []) u)"
  shows "isomorphism g1 g2 f"
proof -
  from perm have m: "mset perm = mset (vertices g2)" by (simp add: permute_set)
  from m have l: "length perm = length (vertices g1)" using len by (metis mset_eq_length)
  from m d2 have dp: "distinct perm" by (metis mset_eq_imp_distinct_iff)
  from m have sp: "set perm = set (vertices g2)" by (rule mset_eq_setD)
  let ?f = "\<lambda>u. the (map_of (zip (vertices g1) perm) u)"
  have eq: "f u = ?f u" if "u \<in> set (vertices g1)" for u
    using same[OF that] by (simp add: mapGet_setAll[OF d1 l])
  have "bij_betw ?f (set (vertices g1)) (set (vertices g2))"
    using zip_perm_bij[OF d1 dp l] sp by simp
  then have "bij_betw f (set (vertices g1)) (set (vertices g2))"
    using eq by (subst bij_betw_cong[where g = ?f]) simp_all
  moreover have "\<forall>u \<in> set (vertices g1). \<forall>v \<in> set (vertices g1).
      areAdjacent g1 u v = areAdjacent g2 (f u) (f v)"
    using valid eq unfolding isValidMapping_setAll[OF d1 l] by simp
  ultimately show ?thesis by (simp add: isomorphism_def)
qed

lemma detectIsomorphism_returned_mapping:
  assumes d1: "distinct (vertices g1)" and d2: "distinct (vertices g2)"
    and keys: "distinct (map propertyKey (vertices g1))"
    and yes: "isIsomorphic (fst (detectIsomorphism g1 g2 opts)) = Some True"
  shows "\<exists>obj. mapping (fst (detectIsomorphism g1 g2 opts)) = Some obj \<and>
               isomorphism g1 g2 (\<lambda>u. the (objGet obj u))"
proof -
  obtain found c log where r:
    "bruteLoop g1 g2 (vertices g1) (onProgress opts) (length (permute (vertices g2)))
       (permute (vertices g2)) 0 [] = (found, c, log)"
    by (cases "bruteLoop g1 g2 (vertices g1) (onProgress opts) (length (permute (vertices g2)))
       (permute (vertices g2)) 0 []") auto
  from yes r have p: "isomorphismPossible (checkInvariants g1 g2)"
    by (auto simp: detectIsomorphism_def Let_def split: if_splits option.splits)
  then have len: "length (vertices g1) = length (vertices g2)"
    by (simp add: isomorphismPossible_iff getVertexCount_def)
  from yes r p obtain m where f: "found = Some m"
    and res: "mapping (fst (detectIsomorphism g1 g2 opts)) = Some (fromEntries m)"
    by (cases found) (auto simp: detectIsomorphism_def Let_def split: if_splits)
  from bruteLoop_Some[of g1 g2 "vertices g1" "onProgress opts" "length (permute (vertices g2))"
      "permute (vertices g2)" 0 "[]" m] r f
  obtain perm where perm: "perm \<in> set (permute (vertices g2))"
    and m: "m = setAll (vertices g1) perm []" and valid: "isValidMapping g1 g2 m"
    by auto
  have km: "map fst m = vertices g1" unfolding m using d1 by (simp add: setAll_keys)
  have "objGet (fromEntries m) u = mapGet m u" if "u \<in> set (vertices g1)" for u
  proof (rule objGet_fromEntries)
    show "distinct (map (propertyKey \<circ> fst) m)"
      using keys km by (metis map_map)
    have "fst ` set m = set (vertices g1)" using km by (metis set_map)
    with that keys show "inj_on propertyKey (insert u (fst ` set m))"
      by (simp add: distinct_map insert_absorb)
  qed
  then have "isomorphism g1 g2 (\<lambda>u. the (objGet (fromEntries m) u))"
    using valid unfolding m
    by (intro found_mapping_isomorphism[OF d1 d2 len perm]) simp_all
  with res show ?thesis by blast
qed

section \<open>The degree-partitioned search\<close>

lemma gen_throws_append: "gen_throws (gen_append g h) \<longleftrightarrow> gen_throws g \<or> gen_throws h"
  by (induction g) auto

lemma gen_list_append:
  "\<not> gen_throws g \<Longrightarrow> gen_list (gen_append g h) = gen_list g @ gen_list h"
  by (induction g) auto

lemma gen_throws_foldr:
  "gen_throws (foldr (\<lambda>x later. gen_append (F x) later) xs Done) \<longleftrightarrow> (\<exists>x \<in> set xs. gen_throws (F x))"
  by (induction xs) (auto simp: gen_throws_append)

lemma gen_list_foldr:
  "\<forall>x \<in> set xs. \<not> gen_throws (F x) \<Longrightarrow>
     gen_list (foldr (\<lambda>x later. gen_append (F x) later) xs Done) = concat (map (\<lambda>x. gen_list (F x)) xs)"
  by (induction xs) (auto simp: gen_list_append)

text \<open>The loop over a generator that does not throw returns the first yielded mapping that
  passes the check.\<close>

lemma optimizedLoop_no_throw:
  "\<not> gen_throws g \<Longrightarrow> \<exists>found c' log'.
     optimizedLoop g1 g2 report g c log = Inr (found, c', log') \<and>
     (found = None \<longleftrightarrow> (\<forall>m \<in> set (gen_list g). \<not> isValidMapping g1 g2 m)) \<and>
     (\<forall>m. found = Some m \<longrightarrow> m \<in> set (gen_list g) \<and> isValidMapping g1 g2 m)"
proof (induction g arbitrary: c log)
  case Done
  then show ?case by simp
next
  case (Yield x g)
  show ?case
  proof (cases "isValidMapping g1 g2 x")
    case True
    then show ?thesis by (simp add: Let_def)
  next
    case False
    from Yield.prems have "\<not> gen_throws g" by simp
    from Yield.IH[OF this, of "c + 1"
        "if report \<and> (c + 1) mod 100 = 0 then log @ [\<lparr>checked = c + 1, total = None\<rparr>] else log"]
    show ?thesis using False by (auto simp: Let_def)
  qed
next
  case Throw
  then show ?case by simp
qed

text \<open>The degree groups: for every degree that occurs, the vertices of that degree in the
  order of the vertex set.\<close>

lemma map_of_groupVertex:
  "map_of (groupVertex g groups v) d =
     (if d = getDegree g v
      then Some ((case map_of groups d of None \<Rightarrow> [] | Some vs \<Rightarrow> vs) @ [v])
      else map_of groups d)"
  by (simp add: groupVertex_def Let_def update_conv' split: option.split)

lemma map_of_foldl_groupVertex:
  "map_of (foldl (groupVertex g) groups vs) d =
     (case map_of groups d of
        None \<Rightarrow> if d \<in> getDegree g ` set vs
                then Some (filter (\<lambda>v. getDegree g v = d) vs) else None
      | Some ws \<Rightarrow> Some (ws @ filter (\<lambda>v. getDegree g v = d) vs))"
proof (induction vs arbitrary: groups)
  case Nil
  then show ?case by (simp split: option.split)
next
  case (Cons v vs)
  show ?case
    by (simp add: Cons.IH map_of_groupVertex split: option.split)
qed

lemma map_of_degreeGroups:
  "map_of (degreeGroups g) d =
     (if d \<in> getDegree g ` set (vertices g)
      then Some (filter (\<lambda>v. getDegree g v = d) (vertices g)) else None)"
  by (simp add: degreeGroups_def map_of_foldl_groupVertex)

lemma generateMappings_no_throw:
  assumes "\<forall>d \<in> set ds. map_of dg1 d \<noteq> None \<and> map_of dg2 d \<noteq> None"
  shows "\<not> gen_throws (generateMappings dg1 dg2 ds cur)"
  using assms
proof (induction ds arbitrary: cur)
  case Nil
  then show ?case by simp
next
  case (Cons d rest)
  then obtain group1 group2 where g: "map_of dg1 d = Some group1" "map_of dg2 d = Some group2"
    by auto
  from Cons have "\<not> gen_throws (generateMappings dg1 dg2 rest c)" for c by simp
  then show ?case by (simp add: g gen_throws_foldr)
qed

lemma generateMappings_Cons:
  assumes "map_of dg1 d = Some group1" "map_of dg2 d = Some group2"
    and "\<forall>d \<in> set rest. map_of dg1 d \<noteq> None \<and> map_of dg2 d \<noteq> None"
  shows "gen_list (generateMappings dg1 dg2 (d # rest) cur) =
     concat (map (\<lambda>perm. gen_list (generateMappings dg1 dg2 rest (setAll group1 perm cur)))
               (permute group2))"
  using assms generateMappings_no_throw[OF assms(3)]
  by (simp add: gen_list_foldr)

text \<open>The degree-partitioned search never throws.\<close>

lemma degree_keys_match:
  assumes "isomorphismPossible (checkInvariants g1 g2)"
  shows "\<forall>d \<in> set (map fst (degreeGroups g1)).
           map_of (degreeGroups g1) d \<noteq> None \<and> map_of (degreeGroups g2) d \<noteq> None"
proof -
  from assms have "getDegreeSequence g1 = getDegreeSequence g2"
    by (simp add: isomorphismPossible_iff)
  then have "getDegree g1 ` set (vertices g1) = getDegree g2 ` set (vertices g2)"
    by (metis set_getDegreeSequence)
  then show ?thesis using degreeGroups_keys[of g1] by (auto simp: map_of_degreeGroups)
qed

lemma detectIsomorphismOptimized_no_throw: "detectIsomorphismOptimized g1 g2 opts \<noteq> Inl e"
proof (cases "isomorphismPossible (checkInvariants g1 g2)")
  case False
  then show ?thesis by (simp add: detectIsomorphismOptimized_def Let_def)
next
  case True
  let ?gen = "generateMappings (degreeGroups g1) (degreeGroups g2) (map fst (degreeGroups g1)) []"
  have "\<not> gen_throws ?gen"
    by (rule generateMappings_no_throw) (rule degree_keys_match[OF True])
  from optimizedLoop_no_throw[OF this, of g1 g2 "onProgress opts" 0 "[]"]
  obtain found c' log' where
    "optimizedLoop g1 g2 (onProgress opts) ?gen 0 [] = Inr (found, c', log')" by blast
  then show ?thesis
    by (cases found) (simp_all add: detectIsomorphismOptimized_def Let_def)
qed

lemma mapGet_setAll_other: "u \<notin> set ks \<Longrightarrow> mapGet (setAll ks perm cur) u = mapGet cur u"
  by (induction ks arbitrary: perm cur) (auto simp: mapGet_def update_conv')

lemma mapGet_setAll_member:
  assumes "distinct ks" "length perm = length ks" "u \<in> set ks"
  shows "mapGet (setAll ks perm cur) u = map_of (zip ks perm) u"
proof -
  from assms(2,3) obtain y where y: "map_of (zip ks perm) u = Some y"
    by (metis map_of_zip_is_None not_Some_eq)
  then have "map_of (zip ks (map Some perm)) u = Some (Some y)"
    by (simp add: map_of_zip_map_Some)
  then show ?thesis using assms(1,2) y
    by (simp add: mapGet_def map_of_setAll map_add_def)
qed

text \<open>The generator, for groups that are the classes of a key function.\<close>

lemma generateMappings_frame:
  assumes "\<forall>d \<in> set ds. map_of dg1 d = Some (filter (\<lambda>v. k1 v = d) V1) \<and> map_of dg2 d \<noteq> None"
    and "m \<in> set (gen_list (generateMappings dg1 dg2 ds cur))"
    and "k1 u \<notin> set ds \<or> u \<notin> set V1"
  shows "mapGet m u = mapGet cur u"
  using assms
proof (induction ds arbitrary: cur)
  case Nil
  then show ?case by simp
next
  case (Cons d rest)
  from Cons.prems(1) obtain group2 where g1: "map_of dg1 d = Some (filter (\<lambda>v. k1 v = d) V1)"
    and g2: "map_of dg2 d = Some group2" by auto
  from Cons.prems(1) have rest: "\<forall>d \<in> set rest. map_of dg1 d \<noteq> None \<and> map_of dg2 d \<noteq> None"
    by auto
  from Cons.prems(2) obtain perm where
    m: "m \<in> set (gen_list (generateMappings dg1 dg2 rest (setAll (filter (\<lambda>v. k1 v = d) V1) perm cur)))"
    unfolding generateMappings_Cons[OF g1 g2 rest] by auto
  from Cons.prems(3) have u: "u \<notin> set (filter (\<lambda>v. k1 v = d) V1)" by auto
  from Cons.prems(1) have r1: "\<forall>d \<in> set rest. map_of dg1 d = Some (filter (\<lambda>v. k1 v = d) V1) \<and> map_of dg2 d \<noteq> None"
    by simp
  from Cons.prems(3) have r3: "k1 u \<notin> set rest \<or> u \<notin> set V1" by auto
  have "mapGet m u = mapGet (setAll (filter (\<lambda>v. k1 v = d) V1) perm cur) u"
    using r1 m r3 by (rule Cons.IH)
  with u show ?case by (simp add: mapGet_setAll_other)
qed

lemma generateMappings_sound:
  assumes groups: "\<forall>d \<in> set ds. map_of dg1 d = Some (filter (\<lambda>v. k1 v = d) V1) \<and>
                     map_of dg2 d = Some (filter (\<lambda>v. k2 v = d) V2)"
    and sizes: "\<forall>d \<in> set ds. length (filter (\<lambda>v. k1 v = d) V1) = length (filter (\<lambda>v. k2 v = d) V2)"
    and dist: "distinct ds" "distinct V1"
    and m: "m \<in> set (gen_list (generateMappings dg1 dg2 ds cur))"
    and d: "d \<in> set ds"
  shows "\<exists>perm \<in> set (permute (filter (\<lambda>v. k2 v = d) V2)).
           \<forall>u \<in> set (filter (\<lambda>v. k1 v = d) V1).
             mapGet m u = map_of (zip (filter (\<lambda>v. k1 v = d) V1) perm) u"
  using groups sizes dist(1) m d
proof (induction ds arbitrary: cur)
  case Nil
  then show ?case by simp
next
  case (Cons d' rest)
  let ?G1 = "filter (\<lambda>v. k1 v = d') V1" and ?G2 = "filter (\<lambda>v. k2 v = d') V2"
  from Cons.prems(1) have g1: "map_of dg1 d' = Some ?G1" and g2: "map_of dg2 d' = Some ?G2"
    by auto
  from Cons.prems(1) have rest: "\<forall>d \<in> set rest. map_of dg1 d \<noteq> None \<and> map_of dg2 d \<noteq> None"
    and rest': "\<forall>d \<in> set rest. map_of dg1 d = Some (filter (\<lambda>v. k1 v = d) V1) \<and> map_of dg2 d \<noteq> None"
    by auto
  from Cons.prems(4) obtain perm where perm: "perm \<in> set (permute ?G2)"
    and m: "m \<in> set (gen_list (generateMappings dg1 dg2 rest (setAll ?G1 perm cur)))"
    unfolding generateMappings_Cons[OF g1 g2 rest] by auto
  show ?case
  proof (cases "d = d'")
    case True
    from perm have "mset perm = mset ?G2" by (simp add: permute_set)
    then have "length perm = length ?G2" by (rule mset_eq_length)
    with Cons.prems(2) have len: "length perm = length ?G1" by simp
    have "mapGet m u = map_of (zip ?G1 perm) u" if "u \<in> set ?G1" for u
    proof -
      from that Cons.prems(3) have "k1 u \<notin> set rest" by auto
      then have "mapGet m u = mapGet (setAll ?G1 perm cur) u"
        by (intro generateMappings_frame[OF rest' m]) simp
      also have "\<dots> = map_of (zip ?G1 perm) u"
        using dist(2) len that by (intro mapGet_setAll_member) simp_all
      finally show ?thesis .
    qed
    then have "\<forall>u \<in> set ?G1. mapGet m u = map_of (zip ?G1 perm) u" by simp
    with perm show ?thesis unfolding True by (rule bexI[rotated])
  next
    case False
    with Cons.prems(5) have dr: "d \<in> set rest" by simp
    from Cons.prems(1) have p1: "\<forall>d \<in> set rest. map_of dg1 d = Some (filter (\<lambda>v. k1 v = d) V1) \<and>
                     map_of dg2 d = Some (filter (\<lambda>v. k2 v = d) V2)" by simp
    from Cons.prems(2) have p2: "\<forall>d \<in> set rest. length (filter (\<lambda>v. k1 v = d) V1) = length (filter (\<lambda>v. k2 v = d) V2)"
      by simp
    from Cons.prems(3) have p3: "distinct rest" by simp
    show ?thesis using p1 p2 p3 m dr by (rule Cons.IH)
  qed
qed

lemma generateMappings_complete:
  assumes groups: "\<forall>d \<in> set ds. map_of dg1 d = Some (filter (\<lambda>v. k1 v = d) V1) \<and>
                     map_of dg2 d = Some (filter (\<lambda>v. k2 v = d) V2)"
    and perms: "\<forall>d \<in> set ds. map f (filter (\<lambda>v. k1 v = d) V1) \<in> set (permute (filter (\<lambda>v. k2 v = d) V2))"
    and dist: "distinct ds" and dV: "distinct V1"
  shows "\<exists>m \<in> set (gen_list (generateMappings dg1 dg2 ds cur)).
           \<forall>u \<in> set V1. k1 u \<in> set ds \<longrightarrow> mapGet m u = Some (f u)"
  using groups perms dist
proof (induction ds arbitrary: cur)
  case Nil
  then show ?case by simp
next
  case (Cons d rest)
  let ?G1 = "filter (\<lambda>v. k1 v = d) V1" and ?G2 = "filter (\<lambda>v. k2 v = d) V2"
  from Cons.prems(1) have g1: "map_of dg1 d = Some ?G1" and g2: "map_of dg2 d = Some ?G2"
    by auto
  from Cons.prems(1) have rest: "\<forall>d \<in> set rest. map_of dg1 d \<noteq> None \<and> map_of dg2 d \<noteq> None"
    and rest': "\<forall>d \<in> set rest. map_of dg1 d = Some (filter (\<lambda>v. k1 v = d) V1) \<and> map_of dg2 d \<noteq> None"
    by auto
  let ?cur = "setAll ?G1 (map f ?G1) cur"
  from Cons.prems(1) have p1: "\<forall>d \<in> set rest. map_of dg1 d = Some (filter (\<lambda>v. k1 v = d) V1) \<and>
                     map_of dg2 d = Some (filter (\<lambda>v. k2 v = d) V2)" by simp
  from Cons.prems(2) have p2: "\<forall>d \<in> set rest. map f (filter (\<lambda>v. k1 v = d) V1)
      \<in> set (permute (filter (\<lambda>v. k2 v = d) V2))" by simp
  from Cons.prems(3) have p3: "distinct rest" by simp
  have "\<exists>m \<in> set (gen_list (generateMappings dg1 dg2 rest ?cur)).
           \<forall>u \<in> set V1. k1 u \<in> set rest \<longrightarrow> mapGet m u = Some (f u)"
    using p1 p2 p3 by (rule Cons.IH)
  then obtain m where m: "m \<in> set (gen_list (generateMappings dg1 dg2 rest ?cur))"
    and mr: "\<forall>u \<in> set V1. k1 u \<in> set rest \<longrightarrow> mapGet m u = Some (f u)" by blast
  have "mapGet m u = Some (f u)" if "u \<in> set V1" "k1 u = d" for u
  proof -
    from that Cons.prems(3) have "k1 u \<notin> set rest" by auto
    then have "mapGet m u = mapGet ?cur u"
      by (intro generateMappings_frame[OF rest' m]) simp
    also have "\<dots> = map_of (zip ?G1 (map f ?G1)) u"
      using dV that by (intro mapGet_setAll_member) simp_all
    also have "\<dots> = Some (f u)" using that by (simp add: map_of_zip_map)
    finally show ?thesis .
  qed
  with mr have "\<forall>u \<in> set V1. k1 u \<in> set (d # rest) \<longrightarrow> mapGet m u = Some (f u)" by auto
  moreover from m Cons.prems(2) have "m \<in> set (gen_list (generateMappings dg1 dg2 (d # rest) cur))"
    unfolding generateMappings_Cons[OF g1 g2 rest] by auto
  ultimately show ?case by blast
qed

lemma isValidMapping_iff:
  assumes "\<forall>u \<in> set (vertices g1). mapGet m u = Some (f u)"
  shows "isValidMapping g1 g2 m \<longleftrightarrow>
     (\<forall>u \<in> set (vertices g1). \<forall>v \<in> set (vertices g1).
        areAdjacent g1 u v = areAdjacent g2 (f u) (f v))"
  using assms by (simp add: isValidMapping_def Let_def list_all_iff areAdjacentMapped_def)

lemma length_filter_key: "length (filter (\<lambda>v. k v = d) xs) = count (mset (map k xs)) d"
  by (induction xs) auto

lemma group_sizes:
  assumes "getDegreeSequence g1 = getDegreeSequence g2"
  shows "length (filter (\<lambda>v. getDegree g1 v = d) (vertices g1))
       = length (filter (\<lambda>v. getDegree g2 v = d) (vertices g2))"
proof -
  have "mset (map (getDegree g1) (vertices g1)) = mset (map (getDegree g2) (vertices g2))"
    using assms by (metis getDegreeSequence_mset)
  then show ?thesis by (simp only: length_filter_key)
qed

text \<open>The facts about the groups that the invariant check guarantees.\<close>

lemma groups_of_matching_graphs:
  assumes "isomorphismPossible (checkInvariants g1 g2)"
  shows "\<forall>d \<in> set (map fst (degreeGroups g1)).
           map_of (degreeGroups g1) d = Some (filter (\<lambda>v. getDegree g1 v = d) (vertices g1)) \<and>
           map_of (degreeGroups g2) d = Some (filter (\<lambda>v. getDegree g2 v = d) (vertices g2))"
    and "\<forall>d \<in> set (map fst (degreeGroups g1)).
           length (filter (\<lambda>v. getDegree g1 v = d) (vertices g1))
         = length (filter (\<lambda>v. getDegree g2 v = d) (vertices g2))"
    and "set (map fst (degreeGroups g1)) = getDegree g1 ` set (vertices g1)"
    and "getDegree g1 ` set (vertices g1) = getDegree g2 ` set (vertices g2)"
proof -
  from assms have s: "getDegreeSequence g1 = getDegreeSequence g2"
    by (simp add: isomorphismPossible_iff)
  then show e: "getDegree g1 ` set (vertices g1) = getDegree g2 ` set (vertices g2)"
    by (metis set_getDegreeSequence)
  show k: "set (map fst (degreeGroups g1)) = getDegree g1 ` set (vertices g1)"
    by (rule degreeGroups_keys)
  show "\<forall>d \<in> set (map fst (degreeGroups g1)).
           map_of (degreeGroups g1) d = Some (filter (\<lambda>v. getDegree g1 v = d) (vertices g1)) \<and>
           map_of (degreeGroups g2) d = Some (filter (\<lambda>v. getDegree g2 v = d) (vertices g2))"
    unfolding k using e by (simp add: map_of_degreeGroups)
  show "\<forall>d \<in> set (map fst (degreeGroups g1)).
           length (filter (\<lambda>v. getDegree g1 v = d) (vertices g1))
         = length (filter (\<lambda>v. getDegree g2 v = d) (vertices g2))"
    using group_sizes[OF s] by blast
qed

lemma optimized_verdict:
  assumes p: "isomorphismPossible (checkInvariants g1 g2)"
    and c: "int (getVertexCount g1) \<le> ceiling_of 12 opts"
  shows "\<exists>r log. detectIsomorphismOptimized g1 g2 opts = Inr (r, log) \<and>
     isIsomorphic r = Some (\<exists>m \<in> set (gen_list (generateMappings (degreeGroups g1) (degreeGroups g2)
                                           (map fst (degreeGroups g1)) [])).
                              isValidMapping g1 g2 m)"
proof -
  let ?gen = "generateMappings (degreeGroups g1) (degreeGroups g2) (map fst (degreeGroups g1)) []"
  have "\<not> gen_throws ?gen"
    by (rule generateMappings_no_throw) (rule degree_keys_match[OF p])
  from optimizedLoop_no_throw[OF this, of g1 g2 "onProgress opts" 0 "[]"]
  obtain found c' log' where l: "optimizedLoop g1 g2 (onProgress opts) ?gen 0 [] = Inr (found, c', log')"
    and n: "found = None \<longleftrightarrow> (\<forall>m \<in> set (gen_list ?gen). \<not> isValidMapping g1 g2 m)"
    by blast
  have len: "length (degreeGroups g1) = length (degreeGroups g2)"
    using p by (rule invariants_imp_same_group_count)
  show ?thesis
    using p c len l n
    by (cases found) (auto simp: detectIsomorphismOptimized_def Let_def ceiling_of_def)
qed

text \<open>Every candidate of the degree-partitioned search maps the first vertex set one-to-one
  onto the second and keeps degrees.\<close>

lemma candidate_bijection:
  assumes p: "isomorphismPossible (checkInvariants g1 g2)"
    and d1: "distinct (vertices g1)" and d2: "distinct (vertices g2)"
    and m: "m \<in> set (gen_list (generateMappings (degreeGroups g1) (degreeGroups g2)
                        (map fst (degreeGroups g1)) []))"
  shows "bij_betw (\<lambda>u. the (mapGet m u)) (set (vertices g1)) (set (vertices g2))"
    and "\<forall>u \<in> set (vertices g1). mapGet m u = Some (the (mapGet m u))"
proof -
  let ?V1 = "vertices g1" and ?V2 = "vertices g2"
  let ?G1 = "\<lambda>d. filter (\<lambda>v. getDegree g1 v = d) ?V1"
  let ?G2 = "\<lambda>d. filter (\<lambda>v. getDegree g2 v = d) ?V2"
  let ?f = "\<lambda>u. the (mapGet m u)"
  note g = groups_of_matching_graphs[OF p]
  have group: "\<exists>perm. mset perm = mset (?G2 d) \<and> length perm = length (?G1 d) \<and>
      (\<forall>u \<in> set (?G1 d). mapGet m u = map_of (zip (?G1 d) perm) u)"
    if "d \<in> getDegree g1 ` set ?V1" for d
  proof -
    from that g(3) have "d \<in> set (map fst (degreeGroups g1))" by simp
    from generateMappings_sound[OF g(1) g(2) degreeGroups_distinct d1 m this]
    obtain perm where perm: "perm \<in> set (permute (?G2 d))"
      and eq: "\<forall>u \<in> set (?G1 d). mapGet m u = map_of (zip (?G1 d) perm) u" by blast
    from perm have ms: "mset perm = mset (?G2 d)" by (simp add: permute_set)
    then have "length perm = length (?G2 d)" by (rule mset_eq_length)
    moreover have "length (?G1 d) = length (?G2 d)"
      using p by (intro group_sizes) (simp add: isomorphismPossible_iff)
    ultimately have "length perm = length (?G1 d)" by simp
    with ms eq show ?thesis by blast
  qed
  have onGroup: "bij_betw ?f (set (?G1 d)) (set (?G2 d)) \<and>
      (\<forall>u \<in> set (?G1 d). mapGet m u = Some (?f u))"
    if "d \<in> getDegree g1 ` set ?V1" for d
  proof -
    from group[OF that] obtain perm where ms: "mset perm = mset (?G2 d)"
      and len: "length perm = length (?G1 d)"
      and eq: "\<forall>u \<in> set (?G1 d). mapGet m u = map_of (zip (?G1 d) perm) u" by blast
    from ms d2 have dp: "distinct perm" by (metis distinct_filter mset_eq_imp_distinct_iff)
    from ms have sp: "set perm = set (?G2 d)" by (rule mset_eq_setD)
    have dg: "distinct (?G1 d)" using d1 by simp
    have "bij_betw (\<lambda>u. the (map_of (zip (?G1 d) perm) u)) (set (?G1 d)) (set perm)"
      using dg dp len by (rule zip_perm_bij)
    then have b: "bij_betw ?f (set (?G1 d)) (set (?G2 d))"
      unfolding sp using eq by (subst bij_betw_cong[where g = "\<lambda>u. the (map_of (zip (?G1 d) perm) u)"]) simp_all
    have "mapGet m u = Some (?f u)" if "u \<in> set (?G1 d)" for u
    proof -
      from that len have "map_of (zip (?G1 d) perm) u \<noteq> None" by simp
      with eq that show ?thesis by auto
    qed
    with b show ?thesis by blast
  qed
  have img: "?f u \<in> set ?V2 \<and> getDegree g2 (?f u) = getDegree g1 u" if "u \<in> set ?V1" for u
  proof -
    from that have d: "getDegree g1 u \<in> getDegree g1 ` set ?V1" by simp
    from that have "u \<in> set (?G1 (getDegree g1 u))" by simp
    with onGroup[OF d] have "?f u \<in> set (?G2 (getDegree g1 u))"
      by (auto simp: bij_betw_def)
    then show ?thesis by simp
  qed
  show "\<forall>u \<in> set ?V1. mapGet m u = Some (?f u)"
  proof
    fix u assume u: "u \<in> set ?V1"
    then have "u \<in> set (?G1 (getDegree g1 u))" by simp
    with onGroup[of "getDegree g1 u"] u show "mapGet m u = Some (?f u)" by blast
  qed
  show "bij_betw ?f (set ?V1) (set ?V2)"
    unfolding bij_betw_def
  proof
    show "inj_on ?f (set ?V1)"
    proof (rule inj_onI)
      fix u v assume u: "u \<in> set ?V1" and v: "v \<in> set ?V1" and e: "?f u = ?f v"
      from img[OF u] img[OF v] e have "getDegree g1 u = getDegree g1 v" by simp
      with u v have "u \<in> set (?G1 (getDegree g1 u))" "v \<in> set (?G1 (getDegree g1 u))" by simp_all
      moreover from onGroup[of "getDegree g1 u"] u
      have "inj_on ?f (set (?G1 (getDegree g1 u)))" by (simp add: bij_betw_def)
      ultimately show "u = v" using e by (rule inj_onD[rotated 2])
    qed
  next
    show "?f ` set ?V1 = set ?V2"
    proof (intro set_eqI iffI)
      fix y assume "y \<in> ?f ` set ?V1"
      with img show "y \<in> set ?V2" by auto
    next
      fix y assume y: "y \<in> set ?V2"
      then have "getDegree g2 y \<in> getDegree g1 ` set ?V1" using g(4) by simp
      from onGroup[OF this] have "?f ` set (?G1 (getDegree g2 y)) = set (?G2 (getDegree g2 y))"
        by (simp add: bij_betw_def)
      moreover from y have "y \<in> set (?G2 (getDegree g2 y))" by simp
      ultimately obtain u where "u \<in> set (?G1 (getDegree g2 y))" "y = ?f u" by blast
      then show "y \<in> ?f ` set ?V1" by auto
    qed
  qed
qed

lemma optimized_sound:
  assumes p: "isomorphismPossible (checkInvariants g1 g2)"
    and d1: "distinct (vertices g1)" and d2: "distinct (vertices g2)"
    and m: "m \<in> set (gen_list (generateMappings (degreeGroups g1) (degreeGroups g2)
                        (map fst (degreeGroups g1)) []))"
    and v: "isValidMapping g1 g2 m"
  shows "isomorphism g1 g2 (\<lambda>u. the (mapGet m u))"
  using candidate_bijection[OF p d1 d2 m] v
  by (simp add: isomorphism_def isValidMapping_iff[where f = "\<lambda>u. the (mapGet m u)"])

text \<open>In a graph without repeated neighbours the degree of a vertex is the number of
  vertices adjacent to it, and an isomorphism keeps it.\<close>

lemma getDegree_card:
  assumes "simple_graph g"
  shows "getDegree g u = card {v \<in> set (vertices g). areAdjacent g u v}"
proof (cases "map_of (adjacencyList g) u")
  case None
  then show ?thesis by (simp add: getDegree_def getNeighbors_def areAdjacent_def)
next
  case (Some ns)
  then have "(u, ns) \<in> set (adjacencyList g)" by (rule map_of_SomeD)
  with assms have d: "distinct ns" and s: "set ns \<subseteq> set (vertices g)"
    by (auto simp: simple_graph_def)
  from s Some have "{v \<in> set (vertices g). areAdjacent g u v} = set ns"
    by (auto simp: areAdjacent_def)
  with d Some show ?thesis
    by (simp add: getDegree_def getNeighbors_def distinct_card)
qed

lemma isomorphism_keeps_degree:
  assumes iso: "isomorphism g1 g2 f" and s1: "simple_graph g1" and s2: "simple_graph g2"
    and u: "u \<in> set (vertices g1)"
  shows "getDegree g2 (f u) = getDegree g1 u"
proof -
  let ?V1 = "set (vertices g1)" and ?V2 = "set (vertices g2)"
  from iso have b: "bij_betw f ?V1 ?V2"
    and a: "\<And>x y. x \<in> ?V1 \<Longrightarrow> y \<in> ?V1 \<Longrightarrow> areAdjacent g1 x y = areAdjacent g2 (f x) (f y)"
    by (auto simp: isomorphism_def)
  from b have inj: "inj_on f ?V1" and img: "f ` ?V1 = ?V2" by (auto simp: bij_betw_def)
  have "{y \<in> ?V2. areAdjacent g2 (f u) y} = f ` {v \<in> ?V1. areAdjacent g1 u v}"
  proof (intro set_eqI iffI)
    fix y assume "y \<in> {y \<in> ?V2. areAdjacent g2 (f u) y}"
    then have y: "y \<in> ?V2" "areAdjacent g2 (f u) y" by simp_all
    with img obtain v where v: "v \<in> ?V1" "y = f v" by blast
    with y a[OF u v(1)] show "y \<in> f ` {v \<in> ?V1. areAdjacent g1 u v}" by auto
  next
    fix y assume "y \<in> f ` {v \<in> ?V1. areAdjacent g1 u v}"
    then obtain v where v: "v \<in> ?V1" "areAdjacent g1 u v" "y = f v" by auto
    with a[OF u v(1)] img show "y \<in> {y \<in> ?V2. areAdjacent g2 (f u) y}" by auto
  qed
  moreover have "inj_on f {v \<in> ?V1. areAdjacent g1 u v}"
    using inj by (rule inj_on_subset) auto
  ultimately have "card {y \<in> ?V2. areAdjacent g2 (f u) y} = card {v \<in> ?V1. areAdjacent g1 u v}"
    by (simp add: card_image)
  then show ?thesis by (simp add: getDegree_card[OF s1] getDegree_card[OF s2])
qed

lemma optimized_complete:
  assumes p: "isomorphismPossible (checkInvariants g1 g2)"
    and d1: "distinct (vertices g1)" and d2: "distinct (vertices g2)"
    and s1: "simple_graph g1" and s2: "simple_graph g2"
    and iso: "isomorphism g1 g2 f"
  shows "\<exists>m \<in> set (gen_list (generateMappings (degreeGroups g1) (degreeGroups g2)
                        (map fst (degreeGroups g1)) [])). isValidMapping g1 g2 m"
proof -
  let ?V1 = "vertices g1" and ?V2 = "vertices g2"
  let ?G1 = "\<lambda>d. filter (\<lambda>v. getDegree g1 v = d) ?V1"
  let ?G2 = "\<lambda>d. filter (\<lambda>v. getDegree g2 v = d) ?V2"
  note g = groups_of_matching_graphs[OF p]
  from iso have b: "bij_betw f (set ?V1) (set ?V2)"
    and a: "\<forall>u \<in> set ?V1. \<forall>v \<in> set ?V1. areAdjacent g1 u v = areAdjacent g2 (f u) (f v)"
    by (auto simp: isomorphism_def)
  from b have inj: "inj_on f (set ?V1)" and img: "f ` set ?V1 = set ?V2"
    by (auto simp: bij_betw_def)
  note keep = isomorphism_keeps_degree[OF iso s1 s2]
  have perms: "map f (?G1 d) \<in> set (permute (?G2 d))" for d
  proof -
    have "inj_on f (set (?G1 d))" using inj by (rule inj_on_subset) auto
    then have "distinct (map f (?G1 d))" using d1 by (simp add: distinct_map)
    moreover have "distinct (?G2 d)" using d2 by simp
    moreover have "set (map f (?G1 d)) = set (?G2 d)"
    proof (intro set_eqI iffI)
      fix y assume "y \<in> set (map f (?G1 d))"
      then obtain u where "u \<in> set ?V1" "getDegree g1 u = d" "y = f u" by auto
      with keep[of u] img show "y \<in> set (?G2 d)" by auto
    next
      fix y assume "y \<in> set (?G2 d)"
      then have y: "y \<in> set ?V2" "getDegree g2 y = d" by simp_all
      with img obtain u where u: "u \<in> set ?V1" "y = f u" by blast
      with keep[of u] y show "y \<in> set (map f (?G1 d))" by auto
    qed
    ultimately have "mset (map f (?G1 d)) = mset (?G2 d)"
      by (metis set_eq_iff_mset_eq_distinct)
    then show ?thesis by (simp only: permute_set mem_Collect_eq)
  qed
  then have "\<forall>d \<in> set (map fst (degreeGroups g1)). map f (?G1 d) \<in> set (permute (?G2 d))"
    by blast
  from generateMappings_complete[OF g(1) this degreeGroups_distinct d1, of "[]"]
  obtain m where m: "m \<in> set (gen_list (generateMappings (degreeGroups g1) (degreeGroups g2)
                        (map fst (degreeGroups g1)) []))"
    and mf: "\<forall>u \<in> set ?V1. getDegree g1 u \<in> set (map fst (degreeGroups g1)) \<longrightarrow> mapGet m u = Some (f u)"
    by blast
  from mf g(3) have "\<forall>u \<in> set ?V1. mapGet m u = Some (f u)" by simp
  then have "isValidMapping g1 g2 m" using a by (simp add: isValidMapping_iff[where f = f])
  with m show ?thesis by blast
qed

text \<open>On graphs without repeated neighbours, and within both ceilings, the two searches
  give the same verdict.\<close>

lemma strategies_agree_on_simple_graphs:
  assumes d1: "distinct (vertices g1)" and d2: "distinct (vertices g2)"
    and s1: "simple_graph g1" and s2: "simple_graph g2"
    and c1: "int (getVertexCount g1) \<le> ceiling_of 10 opts"
    and c2: "int (getVertexCount g1) \<le> ceiling_of 12 opts'"
  shows "\<exists>r log. detectIsomorphismOptimized g1 g2 opts' = Inr (r, log) \<and>
                 isIsomorphic r = isIsomorphic (fst (detectIsomorphism g1 g2 opts))"
proof (cases "isomorphismPossible (checkInvariants g1 g2)")
  case False
  then show ?thesis
    by (simp add: detectIsomorphism_verdict) (simp add: detectIsomorphismOptimized_def Let_def)
next
  case True
  let ?ms = "set (gen_list (generateMappings (degreeGroups g1) (degreeGroups g2)
                        (map fst (degreeGroups g1)) []))"
  from optimized_verdict[OF True c2] obtain r log where
    r: "detectIsomorphismOptimized g1 g2 opts' = Inr (r, log)"
    and v: "isIsomorphic r = Some (\<exists>m \<in> ?ms. isValidMapping g1 g2 m)" by blast
  have "(\<exists>m \<in> ?ms. isValidMapping g1 g2 m) \<longleftrightarrow> (\<exists>f. isomorphism g1 g2 f)"
    using optimized_sound[OF True d1 d2] optimized_complete[OF True d1 d2 s1 s2] by blast
  with v detectIsomorphism_decides[OF d1 d2 True c1] r show ?thesis by simp
qed

text \<open>Without the restriction, a positive answer of the degree-partitioned search is still
  right: it implies that of the brute-force search.\<close>

lemma optimized_yes_implies_isomorphism:
  assumes d1: "distinct (vertices g1)" and d2: "distinct (vertices g2)"
    and r: "detectIsomorphismOptimized g1 g2 opts = Inr (r, log)"
    and y: "isIsomorphic r = Some True"
  shows "\<exists>f. isomorphism g1 g2 f"
proof -
  from r y have p: "isomorphismPossible (checkInvariants g1 g2)"
    by (auto simp: detectIsomorphismOptimized_def Let_def split: if_splits)
  from r y p have c: "int (getVertexCount g1) \<le> ceiling_of 12 opts"
    by (auto simp: detectIsomorphismOptimized_def Let_def ceiling_of_def split: if_splits)
  from optimized_verdict[OF p c] r y
  obtain m where "m \<in> set (gen_list (generateMappings (degreeGroups g1) (degreeGroups g2)
                        (map fst (degreeGroups g1)) []))" "isValidMapping g1 g2 m"
    by auto
  with optimized_sound[OF p d1 d2] show ?thesis by blast
qed

text \<open>The two paths with repeated edges are isomorphic.\<close>

lemma multiPath_isomorphic: "\<exists>f. isomorphism multiPathA multiPathB f"
proof -
  have d: "distinct (vertices multiPathA)" "distinct (vertices multiPathB)" by code_simp+
  have p: "isomorphismPossible (checkInvariants multiPathA multiPathB)" by code_simp
  have c: "int (getVertexCount multiPathA) \<le> ceiling_of 10 defaultOptions" by code_simp
  have y: "isIsomorphic (fst (detectIsomorphism multiPathA multiPathB defaultOptions)) = Some True"
    by code_simp
  from detectIsomorphism_decides[OF d p c] y show ?thesis by simp
qed

section \<open>What the searches write\<close>

lemma keeps_refl [simp]: "keeps P h h"
  by (simp add: keeps_def)

lemma keeps_trans: "keeps P h h1 \<Longrightarrow> keeps P h1 h2 \<Longrightarrow> keeps P h h2"
  by (auto simp: keeps_def)

lemma keeps_length: "keeps P h h' \<Longrightarrow> n \<le> length h \<Longrightarrow> n \<le> length h'"
  by (simp add: keeps_def)

lemma keeps_mono: "keeps P h h' \<Longrightarrow> (\<And>a. Q a \<Longrightarrow> P a) \<Longrightarrow> keeps Q h h'"
  by (auto simp: keeps_def)

lemma keeps_append [simp]: "keeps P h (h @ cs)"
  by (simp add: keeps_def nth_append)

lemma keeps_alloc [simp]: "keeps P h (snd (alloc c h))"
  by (simp add: alloc_def)

lemma fst_alloc [simp]: "fst (alloc c h) = length h"
  by (simp add: alloc_def)

lemma keeps_store: "\<not> P r \<Longrightarrow> keeps P h (store r c h)"
  by (auto simp: keeps_def store_def nth_list_update)

lemma length_store [simp]: "length (store r c h) = length h"
  by (simp add: store_def)

lemma keeps_cellAt: "keeps P h h' \<Longrightarrow> a < length h \<Longrightarrow> P a \<Longrightarrow> cellAt h' a = cellAt h a"
  by (auto simp: keeps_def cellAt_def)

text \<open>A loop keeps what each of its rounds keeps.\<close>

lemma foldl_keeps:
  assumes "\<And>x hi. x \<in> set xs \<Longrightarrow> n \<le> length hi \<Longrightarrow> keeps P hi (f hi x)"
    and "n \<le> length h"
  shows "keeps P h (foldl f h xs)"
  using assms
proof (induction xs arbitrary: h)
  case Nil
  then show ?case by simp
next
  case (Cons x xs)
  have 1: "keeps P h (f h x)" using Cons.prems by simp
  then have "n \<le> length (f h x)" using Cons.prems(2) by (rule keeps_length)
  then have "keeps P (f h x) (foldl f (f h x) xs)"
    using Cons.prems(1) by (intro Cons.IH) simp_all
  with 1 show ?case by (simp add: keeps_trans)
qed

lemma heapGetNeighbors_keeps: "keeps P h (snd (heapGetNeighbors g v h))"
  by (simp add: heapGetNeighbors_def split: option.split)

lemma heapGetDegree_keeps: "keeps P h (snd (heapGetDegree g v h))"
  using heapGetNeighbors_keeps[of P h g v]
  by (simp add: heapGetDegree_def split_def Let_def)

lemma heapDegrees_keeps: "keeps P h (snd (heapDegrees g vs h))"
proof (induction vs arbitrary: h)
  case Nil
  then show ?case by simp
next
  case (Cons v vs)
  from heapGetDegree_keeps[of P h g v] Cons.IH[of "snd (heapGetDegree g v h)"]
  show ?case by (simp add: split_def Let_def keeps_trans)
qed

lemma heapGetDegreeSequence_keeps:
  assumes "n \<le> length h"
  shows "keeps (\<lambda>a. a < n) h (snd (heapGetDegreeSequence g h))"
proof -
  define h1 where "h1 = snd (alloc (VertexArray (heapVertices h g)) h)"
  define h2 where "h2 = snd (heapDegrees g (vertexArrayAt h1 (length h)) h1)"
  define ds where "ds = fst (heapDegrees g (vertexArrayAt h1 (length h)) h1)"
  define h3 where "h3 = snd (alloc (NumberArray ds) h2)"
  have r: "snd (heapGetDegreeSequence g h)
      = store (length h2) (NumberArray (rev (sort (numberArrayAt h3 (length h2))))) h3"
    by (simp add: heapGetDegreeSequence_def split_def Let_def h1_def h2_def h3_def ds_def)
  have k1: "keeps (\<lambda>a. a < n) h h1" by (simp add: h1_def)
  have k2: "keeps (\<lambda>a. a < n) h1 h2" unfolding h2_def by (rule heapDegrees_keeps)
  have k3: "keeps (\<lambda>a. a < n) h2 h3" by (simp add: h3_def)
  have "n \<le> length h2" using assms k1 k2 by (meson keeps_length)
  then have k4: "keeps (\<lambda>a. a < n) h3 (store (length h2) (NumberArray (rev (sort (numberArrayAt h3 (length h2))))) h3)"
    by (intro keeps_store) simp
  from k1 k2 k3 k4 show ?thesis unfolding r by (meson keeps_trans)
qed

lemma heapCheckInvariants_keeps:
  assumes "n \<le> length h"
  shows "keeps (\<lambda>a. a < n) h (snd (heapCheckInvariants g1 g2 h))"
proof -
  define h1 where "h1 = snd (heapGetDegreeSequence g1 h)"
  define h2 where "h2 = snd (heapGetDegreeSequence g2 h1)"
  define h3 where "h3 = snd (heapGetDegreeSequence g1 h2)"
  define h4 where "h4 = snd (heapGetDegreeSequence g2 h3)"
  have r: "snd (heapCheckInvariants g1 g2 h) = h4"
    by (simp add: heapCheckInvariants_def split_def Let_def h1_def h2_def h3_def h4_def)
  have k1: "keeps (\<lambda>a. a < n) h h1" unfolding h1_def using assms by (rule heapGetDegreeSequence_keeps)
  then have "n \<le> length h1" using assms by (rule keeps_length)
  then have k2: "keeps (\<lambda>a. a < n) h1 h2" unfolding h2_def by (rule heapGetDegreeSequence_keeps)
  then have "n \<le> length h2" using \<open>n \<le> length h1\<close> by (rule keeps_length)
  then have k3: "keeps (\<lambda>a. a < n) h2 h3" unfolding h3_def by (rule heapGetDegreeSequence_keeps)
  then have "n \<le> length h3" using \<open>n \<le> length h2\<close> by (rule keeps_length)
  then have k4: "keeps (\<lambda>a. a < n) h3 h4" unfolding h4_def by (rule heapGetDegreeSequence_keeps)
  from k1 k2 k3 k4 show ?thesis unfolding r by (meson keeps_trans)
qed

lemma heapSetAll_keeps:
  assumes "n \<le> length h" "n \<le> candidate"
  shows "keeps (\<lambda>a. a < n) h (heapSetAll keys perm candidate h)"
  unfolding heapSetAll_def Let_def
  using assms by (intro foldl_keeps[where n = n] keeps_store) simp_all

lemma heapIsValidMapping_keeps: "keeps P h (snd (heapIsValidMapping g1 g2 m h))"
  by (simp add: heapIsValidMapping_def split_def Let_def)

lemma heapBruteLoop_keeps:
  "n \<le> length h \<Longrightarrow> keeps (\<lambda>a. a < n) h (snd (heapBruteLoop g1 g2 vs report t perms c log h))"
proof (induction perms arbitrary: c log h)
  case Nil
  then show ?case by simp
next
  case (Cons perm rest)
  define h1 where "h1 = snd (alloc (VertexMap []) h)"
  define h2 where "h2 = heapSetAll vs perm (length h) h1"
  define h3 where "h3 = snd (heapIsValidMapping g1 g2 (length h) h2)"
  have k1: "keeps (\<lambda>a. a < n) h h1" by (simp add: h1_def)
  have l1: "n \<le> length h1" using k1 Cons.prems by (rule keeps_length)
  have k2: "keeps (\<lambda>a. a < n) h1 h2" unfolding h2_def using l1 Cons.prems by (rule heapSetAll_keeps)
  have l2: "n \<le> length h2" using k2 l1 by (rule keeps_length)
  have k3: "keeps (\<lambda>a. a < n) h2 h3" unfolding h3_def by (rule heapIsValidMapping_keeps)
  have l3: "n \<le> length h3" using k3 l2 by (rule keeps_length)
  have k: "keeps (\<lambda>a. a < n) h h3" using k1 k2 k3 by (meson keeps_trans)
  show ?case
  proof (cases "fst (heapIsValidMapping g1 g2 (length h) h2)")
    case True
    then show ?thesis using k
      by (simp add: split_def Let_def h1_def h2_def h3_def)
  next
    case False
    have "keeps (\<lambda>a. a < n) h (snd (heapBruteLoop g1 g2 vs report t rest c' log' h3))" for c' log'
      using k Cons.IH[OF l3, of c' log'] by (rule keeps_trans)
    then show ?thesis using False
      by (simp add: split_def Let_def h1_def h2_def h3_def)
  qed
qed

lemma heapPermute_keeps_aux:
  "\<forall>n. n \<le> length h \<longrightarrow> keeps (\<lambda>a. a < n) h (snd (heapPermute arr h))"
proof (induction arr h rule: heapPermute.induct)
  case (1 arr h)
  define xs where "xs = vertexArrayAt h arr"
  show ?case
  proof (intro allI impI)
    fix n assume n: "n \<le> length h"
    show "keeps (\<lambda>a. a < n) h (snd (heapPermute arr h))"
    proof (cases "length xs \<le> 1")
      case True
      then show ?thesis
        by (subst heapPermute.simps) (simp add: xs_def[symmetric] Let_def)
    next
      case False
      define G where "G = (\<lambda>current hj perm.
         store (length h) (RefArray (refArrayAt (snd (alloc (VertexArray (current # vertexArrayAt hj perm)) hj)) (length h)
             @ [fst (alloc (VertexArray (current # vertexArrayAt hj perm)) hj)]))
           (snd (alloc (VertexArray (current # vertexArrayAt hj perm)) hj)))"
      define F where "F = (\<lambda>hi i.
         foldl (G (xs ! i))
           (snd (heapPermute (length hi) (hi @ [VertexArray (take i xs @ drop (Suc i) xs)])))
           (refArrayAt (snd (heapPermute (length hi) (hi @ [VertexArray (take i xs @ drop (Suc i) xs)])))
              (fst (heapPermute (length hi) (hi @ [VertexArray (take i xs @ drop (Suc i) xs)])))))"
      have r: "snd (heapPermute arr h) = foldl F (h @ [RefArray []]) [0..<length xs]"
        using False
        by (subst heapPermute.simps)
           (simp add: xs_def[symmetric] Let_def split_def alloc_def F_def G_def)
      have G: "keeps (\<lambda>a. a < n) hj (G current hj perm)" if "n \<le> length hj" for current hj perm
        unfolding G_def
        by (rule keeps_trans[OF keeps_alloc]) (rule keeps_store, use n in simp)
      have F: "keeps (\<lambda>a. a < n) hi (F hi i)" if i: "i \<in> set [0..<length xs]" and l: "n \<le> length hi" for hi i
      proof -
        define h1 where "h1 = hi @ [VertexArray (take i xs @ drop (Suc i) xs)]"
        have k1: "keeps (\<lambda>a. a < n) hi h1" by (simp add: h1_def)
        have l1: "n \<le> length h1" using l by (simp add: h1_def)
        have "\<forall>n. n \<le> length h1 \<longrightarrow> keeps (\<lambda>a. a < n) h1 (snd (heapPermute (length hi) h1))"
          unfolding h1_def
          by (rule "1.IH"[OF xs_def False refl _ i refl refl]) (simp_all add: alloc_def)
        with l1 have k2: "keeps (\<lambda>a. a < n) h1 (snd (heapPermute (length hi) h1))" by blast
        then have l2: "n \<le> length (snd (heapPermute (length hi) h1))" using l1 by (rule keeps_length)
        have k3: "keeps (\<lambda>a. a < n) (snd (heapPermute (length hi) h1)) (F hi i)"
          unfolding F_def h1_def[symmetric]
          by (rule foldl_keeps[where n = n]) (simp_all add: G l2)
        from k1 k2 k3 show ?thesis by (meson keeps_trans)
      qed
      have "keeps (\<lambda>a. a < n) (h @ [RefArray []]) (foldl F (h @ [RefArray []]) [0..<length xs])"
        by (rule foldl_keeps[where n = n]) (use n in \<open>simp_all add: F\<close>)
      then show ?thesis unfolding r by (rule keeps_trans[OF keeps_append])
    qed
  qed
qed

lemma heapPermute_keeps:
  "n \<le> length h \<Longrightarrow> keeps (\<lambda>a. a < n) h (snd (heapPermute arr h))"
  using heapPermute_keeps_aux by blast

lemma heapDetectIsomorphism_keeps:
  assumes "n \<le> length h"
  shows "keeps (\<lambda>a. a < n) h (snd (heapDetectIsomorphism g1 g2 opts h))"
proof -
  define h1 where "h1 = snd (heapCheckInvariants g1 g2 h)"
  define h2 where "h2 = h1 @ [VertexArray (heapVertices h1 g1)]"
  define h3 where "h3 = h2 @ [VertexArray (heapVertices h2 g2)]"
  define h4 where "h4 = snd (heapPermute (length h2) h3)"
  define p where "p = fst (heapPermute (length h2) h3)"
  define h5 where "h5 = snd (heapBruteLoop g1 g2 (length h1) (onProgress opts)
      (length (refArrayAt h4 p)) (refArrayAt h4 p) 0 [] h4)"
  have r: "snd (heapDetectIsomorphism g1 g2 opts h) = h1 \<or> snd (heapDetectIsomorphism g1 g2 opts h) = h5"
    by (auto simp: heapDetectIsomorphism_def Let_def split_def alloc_def
        h1_def h2_def h3_def h4_def h5_def p_def split: option.split)
  have k1: "keeps (\<lambda>a. a < n) h h1" unfolding h1_def using assms by (rule heapCheckInvariants_keeps)
  have l1: "n \<le> length h1" using k1 assms by (rule keeps_length)
  have k2: "keeps (\<lambda>a. a < n) h1 h3" by (simp add: h2_def h3_def keeps_trans[OF keeps_append keeps_append])
  have l3: "n \<le> length h3" using k2 l1 by (rule keeps_length)
  have k4: "keeps (\<lambda>a. a < n) h3 h4" unfolding h4_def using l3 by (rule heapPermute_keeps)
  have l4: "n \<le> length h4" using k4 l3 by (rule keeps_length)
  have k5: "keeps (\<lambda>a. a < n) h4 h5" unfolding h5_def using l4 by (rule heapBruteLoop_keeps)
  from k1 k2 k4 k5 have "keeps (\<lambda>a. a < n) h h5" by (meson keeps_trans)
  with k1 r show ?thesis by auto
qed

text \<open>Reading a map of degree groups after a write elsewhere.\<close>

lemma groupMapAt_append: "r < length h \<Longrightarrow> groupMapAt (h @ cs) r = groupMapAt h r"
  by (simp add: groupMapAt_def cellAt_def nth_append)

lemma groupMapAt_store_other: "r \<noteq> q \<Longrightarrow> groupMapAt (store q c h) r = groupMapAt h r"
  by (simp add: groupMapAt_def cellAt_def store_def)

lemma groupMapAt_store_same: "r < length h \<Longrightarrow> groupMapAt (store r (GroupMap x) h) r = x"
  by (simp add: groupMapAt_def cellAt_def store_def)

lemma update_subset_insert: "set (AList.update k v al) \<subseteq> insert (k, v) (set al)"
  by (induction al) auto

lemma heapGetDegree_cases:
  "snd (heapGetDegree g v h) = h \<or> snd (heapGetDegree g v h) = h @ [VertexArray []]"
  by (simp add: heapGetDegree_def heapGetNeighbors_def split_def Let_def alloc_def split: option.split)

lemma foldl_keeps_inv:
  assumes "\<And>x hi. x \<in> set xs \<Longrightarrow> I hi \<Longrightarrow> keeps P hi (f hi x) \<and> I (f hi x)"
    and "I h"
  shows "keeps P h (foldl f h xs) \<and> I (foldl f h xs)"
  using assms
proof (induction xs arbitrary: h)
  case Nil
  then show ?case by simp
next
  case (Cons x xs)
  have 1: "keeps P h (f h x) \<and> I (f h x)" using Cons.prems by simp
  then have "keeps P (f h x) (foldl f (f h x) xs) \<and> I (foldl f (f h x) xs)"
    using Cons.prems(1) by (intro Cons.IH) simp_all
  with 1 show ?case by (auto intro: keeps_trans)
qed

lemma heapGroupVertex_keeps:
  assumes g: "groups < m" and f: "groupsFresh m groups h"
  shows "keeps (\<lambda>a. a < m \<and> a \<noteq> groups) h (heapGroupVertex g groups v h) \<and>
         groupsFresh m groups (heapGroupVertex g groups v h)"
proof -
  define degree where "degree = fst (heapGetDegree g v h)"
  define h1 where "h1 = snd (heapGetDegree g v h)"
  from f have m: "m \<le> length h" and fr: "\<forall>(d, r) \<in> set (groupMapAt h groups). m \<le> r"
    by (simp_all add: groupsFresh_def)
  have k1: "keeps (\<lambda>a. a < m \<and> a \<noteq> groups) h h1" unfolding h1_def by (rule heapGetDegree_keeps)
  have m1: "m \<le> length h1" using k1 m by (rule keeps_length)
  have gm1: "groupMapAt h1 groups = groupMapAt h groups"
    using heapGetDegree_cases[of g v h] g m by (auto simp: h1_def groupMapAt_append)
  show ?thesis
  proof (cases "map_of (groupMapAt h groups) degree")
    case None
    define h2 where "h2 = store groups (GroupMap (AList.update degree (length h1) (groupMapAt h groups)))
        (h1 @ [VertexArray []])"
    have gm2: "groupMapAt h2 groups = AList.update degree (length h1) (groupMapAt h groups)"
      using g m1 by (simp add: h2_def groupMapAt_store_same)
    have r: "heapGroupVertex g groups v h = store (length h1) (VertexArray (vertexArrayAt h2 (length h1) @ [v])) h2"
      using None g m1
      by (simp add: heapGroupVertex_def split_def Let_def degree_def[symmetric] h1_def[symmetric]
          gm1 alloc_def groupMapAt_append h2_def[symmetric] gm2 update_conv')
    have k2: "keeps (\<lambda>a. a < m \<and> a \<noteq> groups) h1 h2"
      unfolding h2_def by (rule keeps_trans[OF keeps_append]) (rule keeps_store, simp)
    have k3: "keeps (\<lambda>a. a < m \<and> a \<noteq> groups) h2 (heapGroupVertex g groups v h)"
      unfolding r using m1 by (intro keeps_store) simp
    have "groupMapAt (heapGroupVertex g groups v h) groups = AList.update degree (length h1) (groupMapAt h groups)"
      unfolding r using g m1 by (simp add: groupMapAt_store_other gm2)
    moreover have "set (AList.update degree (length h1) (groupMapAt h groups))
        \<subseteq> insert (degree, length h1) (set (groupMapAt h groups))"
      by (rule update_subset_insert)
    ultimately have "\<forall>(d, r) \<in> set (groupMapAt (heapGroupVertex g groups v h) groups). m \<le> r"
      using fr m1 by auto
    moreover have "m \<le> length (heapGroupVertex g groups v h)" using k3 k2 m1 by (meson keeps_length)
    ultimately show ?thesis using k1 k2 k3 by (auto simp: groupsFresh_def intro: keeps_trans)
  next
    case (Some r)
    then have "(degree, r) \<in> set (groupMapAt h groups)" by (rule map_of_SomeD)
    with fr have mr: "m \<le> r" by auto
    have r: "heapGroupVertex g groups v h = store r (VertexArray (vertexArrayAt h1 r @ [v])) h1"
      using Some
      by (simp add: heapGroupVertex_def split_def Let_def degree_def[symmetric] h1_def[symmetric] gm1)
    have k2: "keeps (\<lambda>a. a < m \<and> a \<noteq> groups) h1 (heapGroupVertex g groups v h)"
      unfolding r using mr by (intro keeps_store) simp
    have "groupMapAt (heapGroupVertex g groups v h) groups = groupMapAt h groups"
      unfolding r using mr g by (simp add: groupMapAt_store_other gm1)
    with fr have "\<forall>(d, r) \<in> set (groupMapAt (heapGroupVertex g groups v h) groups). m \<le> r" by simp
    moreover have "m \<le> length (heapGroupVertex g groups v h)" using k2 m1 by (rule keeps_length)
    ultimately show ?thesis using k1 k2 by (auto simp: groupsFresh_def intro: keeps_trans)
  qed
qed

lemma heapGroupVertex_loop_keeps:
  assumes "groups < m" and "groupsFresh m groups h"
  shows "keeps (\<lambda>a. a < m \<and> a \<noteq> groups) h (foldl (\<lambda>hi v. heapGroupVertex g groups v hi) h vs)"
  using foldl_keeps_inv[where I = "groupsFresh m groups" and P = "\<lambda>a. a < m \<and> a \<noteq> groups"
      and f = "\<lambda>hi v. heapGroupVertex g groups v hi" and xs = vs and h = h]
    heapGroupVertex_keeps[OF assms(1)] assms(2)
  by blast

lemma heapSearch_keeps_aux:
  "(\<forall>n. n \<le> length (fst s) \<longrightarrow>
      keeps (\<lambda>a. a < n) (fst s)
        (fst (snd (heapSearch g1 g2 report groups1 groups2 ds cur s))))"
  "(\<forall>n. n \<le> length (fst s) \<longrightarrow>
      keeps (\<lambda>a. a < n) (fst s)
        (fst (snd (heapSearchPerms g1 g2 report groups1 groups2 degree rest cur perms s))))"
proof (induction g1 g2 report groups1 groups2 ds cur s
    and g1 g2 report groups1 groups2 degree rest cur perms s
    rule: heapSearch_heapSearchPerms.induct)
  case (1 g1 g2 report groups1 groups2 currentMapping h checkedCount log)
  show ?case
    using heapIsValidMapping_keeps[of _ "h @ [VertexMap (vertexMapAt h currentMapping)]" g1 g2 "length h"]
    by (auto simp: split_def Let_def alloc_def intro: keeps_trans[OF keeps_append])
next
  case (2 g1 g2 report groups1 groups2 degree rest currentMapping h checkedCount log)
  show ?case
  proof (cases "map_of (groupMapAt h groups2) degree")
    case None
    then show ?thesis by simp
  next
    case (Some group2)
    show ?thesis
    proof (intro allI impI)
      fix n assume "n \<le> length (fst (h, checkedCount, log))"
      then have n: "n \<le> length h" by simp
      define h1 where "h1 = snd (heapPermute group2 h)"
      define p where "p = fst (heapPermute group2 h)"
      have k1: "keeps (\<lambda>a. a < n) h h1" unfolding h1_def using n by (rule heapPermute_keeps)
      then have l1: "n \<le> length h1" using n by (rule keeps_length)
      from "2.IH"[OF Some refl, of p h1] l1
      have "keeps (\<lambda>a. a < n) h1 (fst (snd (heapSearchPerms g1 g2 report groups1 groups2 degree rest
          currentMapping (refArrayAt h1 p) (h1, checkedCount, log))))"
        by (simp add: p_def h1_def)
      with k1 show "keeps (\<lambda>a. a < n) (fst (h, checkedCount, log))
          (fst (snd (heapSearch g1 g2 report groups1 groups2 (degree # rest) currentMapping
             (h, checkedCount, log))))"
        using Some by (auto simp: split_def Let_def p_def h1_def intro: keeps_trans)
    qed
  qed
next
  case (3 g1 g2 report groups1 groups2 degree rest currentMapping s)
  show ?case by simp
next
  case (4 g1 g2 report groups1 groups2 degree rest currentMapping perm others h checkedCount log)
  define h1 where "h1 = h @ [VertexMap (vertexMapAt h currentMapping)]"
  have a: "alloc (VertexMap (vertexMapAt h currentMapping)) h = (length h, h1)"
    by (simp add: alloc_def h1_def)
  show ?case
  proof (cases "map_of (groupMapAt h1 groups1) degree")
    case None
    then show ?thesis by (simp add: a h1_def[symmetric]) (simp add: h1_def)
  next
    case (Some group1)
    define h2 where "h2 = heapSetAll group1 perm (length h) h1"
    define res where "res = heapSearch g1 g2 report groups1 groups2 rest (length h) (h2, checkedCount, log)"
    show ?thesis
    proof (intro allI impI)
      fix n assume "n \<le> length (fst (h, checkedCount, log))"
      then have n: "n \<le> length h" by simp
      have k1: "keeps (\<lambda>a. a < n) h h1" by (simp add: h1_def)
      have l1: "n \<le> length h1" using n by (simp add: h1_def)
      have k2: "keeps (\<lambda>a. a < n) h1 h2" unfolding h2_def using l1 n by (rule heapSetAll_keeps)
      have l2: "n \<le> length h2" using k2 l1 by (rule keeps_length)
      from "4.IH"(1)[OF a[symmetric] refl Some] l2
      have k3: "keeps (\<lambda>a. a < n) h2 (fst (snd res))" by (simp add: res_def h2_def)
      then have l3: "n \<le> length (fst (snd res))" using l2 by (rule keeps_length)
      have k: "keeps (\<lambda>a. a < n) h (fst (snd res))" using k1 k2 k3 by (meson keeps_trans)
      have step: "heapSearchPerms g1 g2 report groups1 groups2 degree rest currentMapping (perm # others)
             (h, checkedCount, log) =
           (case res of (Exhausted, s') \<Rightarrow>
                  heapSearchPerms g1 g2 report groups1 groups2 degree rest currentMapping others s'
              | (Found m, s') \<Rightarrow> (Found m, s')
              | (Thrown, s') \<Rightarrow> (Thrown, s'))"
        using Some by (simp add: a res_def h2_def)
      show "keeps (\<lambda>a. a < n) (fst (h, checkedCount, log))
          (fst (snd (heapSearchPerms g1 g2 report groups1 groups2 degree rest currentMapping
             (perm # others) (h, checkedCount, log))))"
      proof (cases "fst res")
        case (Found m)
        then show ?thesis using k unfolding step by (cases res) simp
      next
        case Thrown
        then show ?thesis using k unfolding step by (cases res) simp
      next
        case Exhausted
        then obtain s' where res: "res = (Exhausted, s')" by (cases res) auto
        from "4.IH"(2)[OF a[symmetric] refl Some _ refl, of s'] res l3
        have "keeps (\<lambda>a. a < n) (fst s') (fst (snd (heapSearchPerms g1 g2 report groups1 groups2
            degree rest currentMapping others s')))"
          by (simp add: res_def h2_def)
        with k res show ?thesis unfolding step by (simp add: keeps_trans)
      qed
    qed
  qed
qed

lemma heapDetectIsomorphismOptimized_keeps:
  assumes "n \<le> length h"
  shows "keeps (\<lambda>a. a < n) h (snd (heapDetectIsomorphismOptimized g1 g2 opts h))"
proof -
  define h1 where "h1 = snd (heapCheckInvariants g1 g2 h)"
  define h3 where "h3 = h1 @ [GroupMap [], GroupMap []]"
  define h4 where "h4 = foldl (\<lambda>hi v. heapGroupVertex g1 (length h1) v hi) h3 (heapVertices h3 g1)"
  define h5 where "h5 = foldl (\<lambda>hi v. heapGroupVertex g2 (Suc (length h1)) v hi) h4 (heapVertices h4 g2)"
  define h7 where "h7 = h5 @ [NumberArray (map fst (groupMapAt h5 (length h1))), VertexMap []]"
  define res where "res = heapSearch g1 g2 (onProgress opts) (length h1) (Suc (length h1))
      (numberArrayAt h7 (length h5)) (Suc (length h5)) (h7, 0, [])"
  have r: "snd (heapDetectIsomorphismOptimized g1 g2 opts h) \<in> {h1, h5, fst (snd res)}"
    by (auto simp: heapDetectIsomorphismOptimized_def Let_def split_def alloc_def
        h1_def h3_def h4_def h5_def h7_def res_def split: outcome.split)
  have k1: "keeps (\<lambda>a. a < n) h h1" unfolding h1_def using assms by (rule heapCheckInvariants_keeps)
  have l1: "n \<le> length h1" using k1 assms by (rule keeps_length)
  have k3: "keeps (\<lambda>a. a < n) h1 h3" by (simp add: h3_def)
  have f3: "groupsFresh (length h3) (length h1) h3"
    by (simp add: groupsFresh_def groupMapAt_def cellAt_def h3_def nth_append)
  have "keeps (\<lambda>a. a < length h3 \<and> a \<noteq> length h1) h3 h4"
    unfolding h4_def by (rule heapGroupVertex_loop_keeps[OF _ f3]) (simp add: h3_def)
  then have k4': "keeps (\<lambda>a. a < length h3 \<and> a \<noteq> length h1) h3 h4" .
  then have k4: "keeps (\<lambda>a. a < n) h3 h4"
    by (rule keeps_mono) (use l1 in \<open>simp add: h3_def\<close>)
  have "cellAt h4 (Suc (length h1)) = cellAt h3 (Suc (length h1))"
    using k4' by (rule keeps_cellAt) (simp_all add: h3_def)
  then have "groupMapAt h4 (Suc (length h1)) = []"
    by (simp add: groupMapAt_def h3_def cellAt_def nth_append)
  moreover have "length h3 \<le> length h4" using k4' by (simp add: keeps_def)
  ultimately have f4: "groupsFresh (length h3) (Suc (length h1)) h4"
    by (simp add: groupsFresh_def)
  have "keeps (\<lambda>a. a < length h3 \<and> a \<noteq> Suc (length h1)) h4 h5"
    unfolding h5_def by (rule heapGroupVertex_loop_keeps[OF _ f4]) (simp add: h3_def)
  then have k5: "keeps (\<lambda>a. a < n) h4 h5"
    by (rule keeps_mono) (use l1 in \<open>simp add: h3_def\<close>)
  have k7: "keeps (\<lambda>a. a < n) h5 h7" by (simp add: h7_def)
  have k15: "keeps (\<lambda>a. a < n) h h5" using k1 k3 k4 k5 by (meson keeps_trans)
  then have "n \<le> length h7" using assms k7 by (meson keeps_length)
  with heapSearch_keeps_aux(1)[of "(h7, 0, [])" g1 g2 "onProgress opts" "length h1" "Suc (length h1)"
      "numberArrayAt h7 (length h5)" "Suc (length h5)"]
  have k8: "keeps (\<lambda>a. a < n) h7 (fst (snd res))" by (simp add: res_def)
  from k15 k7 k8 have "keeps (\<lambda>a. a < n) h (fst (snd res))" by (meson keeps_trans)
  with k1 k15 r show ?thesis by auto
qed

text \<open>A graph whose objects all lie in \<open>h\<close> reads the same after objects were added.\<close>

lemma cellAt_append: "r < length h \<Longrightarrow> cellAt (h @ cs) r = cellAt h r"
  by (simp add: cellAt_def nth_append)

lemma graphAt_append:
  assumes "graphInHeap h g"
  shows "graphAt (h @ cs) g = graphAt h g"
proof -
  from assms obtain d a v e where c: "cellAt h g = Some (GraphObject d a v e)"
    and a: "a < length h" and v: "v < length h" and e: "e < length h"
    and rs: "list_all (\<lambda>(k, r). r < length h) (adjacencyMapAt h a)"
    by (auto simp: graphInHeap_def split: option.splits cell.splits)
  from c have g: "g < length h" by (auto simp: cellAt_def split: if_splits)
  have c': "cellAt (h @ cs) g = Some (GraphObject d a v e)" using c g by (simp add: cellAt_append)
  have am: "adjacencyMapAt (h @ cs) a = adjacencyMapAt h a"
    using a by (simp add: adjacencyMapAt_def cellAt_append)
  have "map (\<lambda>(k, r). (k, vertexArrayAt (h @ cs) r)) (adjacencyMapAt h a)
      = map (\<lambda>(k, r). (k, vertexArrayAt h r)) (adjacencyMapAt h a)"
    using rs by (auto simp: list_all_iff vertexArrayAt_def cellAt_append)
  then show ?thesis
    using c c' am v e
    by (simp add: graphAt_def heapDirected_def heapAdjacency_def heapVertices_def heapEdges_def
        vertexSetAt_def edgeArrayAt_def cellAt_append)
qed

lemma keeps_all_append:
  assumes "keeps (\<lambda>a. a < length h) h h'"
  shows "h' = h @ drop (length h) h'"
proof -
  from assms have l: "length h \<le> length h'" and e: "\<forall>a < length h. h' ! a = h ! a"
    by (simp_all add: keeps_def)
  then have "take (length h) h' = h"
    by (intro nth_equalityI) simp_all
  then show ?thesis by (metis append_take_drop_id)
qed

section \<open>The invariant check on the heap\<close>

text \<open>Reading the graph through a heap that still begins with \<open>h\<close>.\<close>

lemma keeps_prefix:
  assumes "keeps (\<lambda>a. a < length h) (h @ cs) h'"
  shows "\<exists>cs'. h' = h @ cs'"
proof -
  from assms have l: "length h \<le> length h'" and e: "\<forall>a < length h. h' ! a = h ! a"
    by (auto simp: keeps_def nth_append)
  then have "take (length h) h' = h" by (intro nth_equalityI) simp_all
  then show ?thesis by (metis append_take_drop_id)
qed

lemma graph_reads_append:
  assumes "graphInHeap h g"
  shows "heapVertices (h @ cs) g = vertices (graphAt h g)"
    and "heapEdges (h @ cs) g = edges (graphAt h g)"
    and "heapDirected (h @ cs) g = isDirected (graphAt h g)"
    and "heapAdjacency (h @ cs) g = heapAdjacency h g"
    and "\<forall>(k, r) \<in> set (heapAdjacency h g). r < length h"
proof -
  from assms obtain d a v e where c: "cellAt h g = Some (GraphObject d a v e)"
    and a: "a < length h" and v: "v < length h" and e: "e < length h"
    and rs: "list_all (\<lambda>(k, r). r < length h) (adjacencyMapAt h a)"
    by (auto simp: graphInHeap_def split: option.splits cell.splits)
  from c have g: "g < length h" by (auto simp: cellAt_def split: if_splits)
  have c': "cellAt (h @ cs) g = Some (GraphObject d a v e)" using c g by (simp add: cellAt_append)
  show "heapVertices (h @ cs) g = vertices (graphAt h g)"
    using c c' v by (simp add: graphAt_def heapVertices_def vertexSetAt_def cellAt_append)
  show "heapEdges (h @ cs) g = edges (graphAt h g)"
    using c c' e by (simp add: graphAt_def heapEdges_def edgeArrayAt_def cellAt_append)
  show "heapDirected (h @ cs) g = isDirected (graphAt h g)"
    using c c' by (simp add: graphAt_def heapDirected_def)
  show "heapAdjacency (h @ cs) g = heapAdjacency h g"
    using c c' a by (simp add: heapAdjacency_def adjacencyMapAt_def cellAt_append)
  show "\<forall>(k, r) \<in> set (heapAdjacency h g). r < length h"
    using c rs by (simp add: heapAdjacency_def list_all_iff)
qed

lemma map_of_map_values: "map_of (map (\<lambda>(k, r). (k, f r)) al) k = map_option f (map_of al k)"
  by (induction al) auto

lemma getNeighbors_graphAt:
  "getNeighbors (graphAt h g) v =
     (case map_of (heapAdjacency h g) v of None \<Rightarrow> [] | Some r \<Rightarrow> vertexArrayAt h r)"
  by (simp add: getNeighbors_def graphAt_def map_of_map_values split: option.split)

lemma heapGetDegree_refines:
  assumes "graphInHeap h g"
  shows "fst (heapGetDegree g v (h @ cs)) = getDegree (graphAt h g) v"
proof (cases "map_of (heapAdjacency h g) v")
  case None
  have "vertexArrayAt (h @ cs @ [VertexArray []]) (length h + length cs) = []"
    by (simp add: vertexArrayAt_def cellAt_def nth_append)
  with None show ?thesis
    using graph_reads_append(4)[OF assms, of cs]
    by (simp add: heapGetDegree_def heapGetNeighbors_def Let_def alloc_def
        getDegree_def getNeighbors_graphAt)
next
  case (Some r)
  then have "(v, r) \<in> set (heapAdjacency h g)" by (rule map_of_SomeD)
  with graph_reads_append(5)[OF assms] have "r < length h" by auto
  then have "vertexArrayAt (h @ cs) r = vertexArrayAt h r"
    by (simp add: vertexArrayAt_def cellAt_append)
  with Some show ?thesis
    using graph_reads_append(4)[OF assms, of cs]
    by (simp add: heapGetDegree_def heapGetNeighbors_def Let_def
        getDegree_def getNeighbors_graphAt)
qed

lemma heapGetDegree_prefix: "\<exists>cs'. snd (heapGetDegree g v (h @ cs)) = h @ cs'"
  using heapGetDegree_cases[of g v "h @ cs"] by auto

lemma heapDegrees_refines:
  assumes "graphInHeap h g"
  shows "fst (heapDegrees g vs (h @ cs)) = map (getDegree (graphAt h g)) vs"
proof (induction vs arbitrary: cs)
  case Nil
  then show ?case by simp
next
  case (Cons v vs)
  obtain cs' where s: "snd (heapGetDegree g v (h @ cs)) = h @ cs'"
    using heapGetDegree_prefix by blast
  show ?case
    using Cons.IH[of cs'] heapGetDegree_refines[OF assms, of v cs]
    by (simp add: split_def Let_def s)
qed

lemma heapGetDegreeSequence_refines:
  assumes "graphInHeap h g"
  shows "numberArrayAt (snd (heapGetDegreeSequence g (h @ cs))) (fst (heapGetDegreeSequence g (h @ cs)))
           = getDegreeSequence (graphAt h g)"
    and "fst (heapGetDegreeSequence g (h @ cs)) < length (snd (heapGetDegreeSequence g (h @ cs)))"
proof -
  define h1 where "h1 = h @ cs @ [VertexArray (heapVertices (h @ cs) g)]"
  define h2 where "h2 = snd (heapDegrees g (vertexArrayAt h1 (length (h @ cs))) h1)"
  define ds where "ds = fst (heapDegrees g (vertexArrayAt h1 (length (h @ cs))) h1)"
  define h3 where "h3 = h2 @ [NumberArray ds]"
  have r: "heapGetDegreeSequence g (h @ cs)
      = (length h2, store (length h2) (NumberArray (rev (sort (numberArrayAt h3 (length h2))))) h3)"
    by (simp add: heapGetDegreeSequence_def split_def Let_def alloc_def h1_def h2_def h3_def ds_def)
  have v: "vertexArrayAt h1 (length (h @ cs)) = vertices (graphAt h g)"
    using graph_reads_append(1)[OF assms, of cs]
    by (simp add: h1_def vertexArrayAt_def cellAt_def nth_append)
  have "fst (heapDegrees g (vertices (graphAt h g)) (h @ (cs @ [VertexArray (heapVertices (h @ cs) g)])))
      = map (getDegree (graphAt h g)) (vertices (graphAt h g))"
    using assms by (rule heapDegrees_refines)
  then have "ds = map (getDegree (graphAt h g)) (vertices (graphAt h g))"
    unfolding ds_def v by (simp add: h1_def)
  moreover have "numberArrayAt h3 (length h2) = ds"
    by (simp add: h3_def numberArrayAt_def cellAt_def)
  ultimately show "numberArrayAt (snd (heapGetDegreeSequence g (h @ cs))) (fst (heapGetDegreeSequence g (h @ cs)))
           = getDegreeSequence (graphAt h g)"
    by (simp add: r getDegreeSequence_def numberArrayAt_def cellAt_def store_def h3_def)
  show "fst (heapGetDegreeSequence g (h @ cs)) < length (snd (heapGetDegreeSequence g (h @ cs)))"
    by (simp add: r h3_def)
qed

lemma heapGetDegreeSequence_prefix:
  "\<exists>cs'. snd (heapGetDegreeSequence g (h @ cs)) = h @ cs'"
  by (rule keeps_prefix) (rule heapGetDegreeSequence_keeps, simp)

lemma numberArrayAt_kept:
  "keeps (\<lambda>a. a < length h) h h' \<Longrightarrow> r < length h \<Longrightarrow> numberArrayAt h' r = numberArrayAt h r"
  by (simp add: numberArrayAt_def keeps_cellAt)

lemma heapCheckInvariants_refines:
  assumes g1: "graphInHeap h g1" and g2: "graphInHeap h g2"
  shows "fst (heapCheckInvariants g1 g2 h) = checkInvariants (graphAt h g1) (graphAt h g2)"
proof -
  define s1 where "s1 = fst (heapGetDegreeSequence g1 h)"
  define h1 where "h1 = snd (heapGetDegreeSequence g1 h)"
  define s2 where "s2 = fst (heapGetDegreeSequence g2 h1)"
  define h2 where "h2 = snd (heapGetDegreeSequence g2 h1)"
  define d1 where "d1 = fst (heapGetDegreeSequence g1 h2)"
  define h3 where "h3 = snd (heapGetDegreeSequence g1 h2)"
  define d2 where "d2 = fst (heapGetDegreeSequence g2 h3)"
  define h4 where "h4 = snd (heapGetDegreeSequence g2 h3)"
  obtain c1 where c1: "h1 = h @ c1"
    using heapGetDegreeSequence_prefix[of g1 h "[]"] by (auto simp: h1_def)
  obtain c2 where c2: "h2 = h @ c2"
    using heapGetDegreeSequence_prefix[of g2 h c1] by (auto simp: h2_def c1)
  obtain c3 where c3: "h3 = h @ c3"
    using heapGetDegreeSequence_prefix[of g1 h c2] by (auto simp: h3_def c2)
  have a1: "numberArrayAt h1 s1 = getDegreeSequence (graphAt h g1)"
    using heapGetDegreeSequence_refines(1)[OF g1, of "[]"] by (simp add: h1_def s1_def)
  have a2: "numberArrayAt h2 s2 = getDegreeSequence (graphAt h g2)"
    using heapGetDegreeSequence_refines(1)[OF g2, of c1] by (simp add: h2_def s2_def c1)
  have a3: "numberArrayAt h3 d1 = getDegreeSequence (graphAt h g1)"
    and l3: "d1 < length h3"
    using heapGetDegreeSequence_refines[OF g1, of c2] by (simp_all add: h3_def d1_def c2)
  have a4: "numberArrayAt h4 d2 = getDegreeSequence (graphAt h g2)"
    using heapGetDegreeSequence_refines(1)[OF g2, of c3] by (simp add: h4_def d2_def c3)
  have "keeps (\<lambda>a. a < length h3) h3 h4"
    unfolding h4_def by (rule heapGetDegreeSequence_keeps) simp
  from numberArrayAt_kept[OF this l3] a3
  have a3': "numberArrayAt h4 d1 = getDegreeSequence (graphAt h g1)" by simp
  have v: "heapGetVertexCount h g1 = getVertexCount (graphAt h g1)"
      "heapGetVertexCount h g2 = getVertexCount (graphAt h g2)"
      "heapGetVertexCount h2 g1 = getVertexCount (graphAt h g1)"
      "heapGetVertexCount h3 g2 = getVertexCount (graphAt h g2)"
    using graph_reads_append(1)[OF g1, of "[]"] graph_reads_append(1)[OF g2, of "[]"]
      graph_reads_append(1)[OF g1, of c2] graph_reads_append(1)[OF g2, of c3]
    by (simp_all add: heapGetVertexCount_def getVertexCount_def c2 c3)
  have e: "heapGetEdgeCount h g1 = getEdgeCount (graphAt h g1)"
      "heapGetEdgeCount h g2 = getEdgeCount (graphAt h g2)"
      "heapGetEdgeCount h2 g1 = getEdgeCount (graphAt h g1)"
      "heapGetEdgeCount h3 g2 = getEdgeCount (graphAt h g2)"
    using graph_reads_append(2)[OF g1, of "[]"] graph_reads_append(2)[OF g2, of "[]"]
      graph_reads_append(2)[OF g1, of c2] graph_reads_append(2)[OF g2, of c3]
    by (simp_all add: heapGetEdgeCount_def getEdgeCount_def c2 c3)
  show ?thesis
    by (simp add: heapCheckInvariants_def checkInvariants_def split_def Let_def
        s1_def[symmetric] h1_def[symmetric] s2_def[symmetric] h2_def[symmetric]
        d1_def[symmetric] h3_def[symmetric] d2_def[symmetric] h4_def[symmetric]
        a1 a2 a3' a4 v e)
qed

lemma heapCheckInvariants_prefix: "\<exists>cs. snd (heapCheckInvariants g1 g2 h) = h @ cs"
  using keeps_prefix[of h "[]" "snd (heapCheckInvariants g1 g2 h)"]
    heapCheckInvariants_keeps[of "length h" h g1 g2]
  by simp

text \<open>When a search returns before its loop, it has run the invariant check and nothing
  else: the result is that of the search on the graph values, and the objects created are
  those of the check.\<close>

lemma heap_invariant_failure:
  assumes g1: "graphInHeap h r1" and g2: "graphInHeap h r2"
    and f: "\<not> isomorphismPossible (checkInvariants (graphAt h r1) (graphAt h r2))"
  shows "heapDetectIsomorphism r1 r2 opts h =
           (detectIsomorphism (graphAt h r1) (graphAt h r2) opts, snd (heapCheckInvariants r1 r2 h))"
    and "heapDetectIsomorphismOptimized r1 r2 opts h =
           (detectIsomorphismOptimized (graphAt h r1) (graphAt h r2) opts,
            snd (heapCheckInvariants r1 r2 h))"
  using f heapCheckInvariants_refines[OF g1 g2]
  by (simp_all add: heapDetectIsomorphism_def detectIsomorphism_def
      heapDetectIsomorphismOptimized_def detectIsomorphismOptimized_def split_def Let_def)

lemma heap_ceiling_exceeded:
  assumes g1: "graphInHeap h r1" and g2: "graphInHeap h r2"
    and p: "isomorphismPossible (checkInvariants (graphAt h r1) (graphAt h r2))"
  shows "int (getVertexCount (graphAt h r1)) > ceiling_of 10 opts \<Longrightarrow>
         heapDetectIsomorphism r1 r2 opts h =
           (detectIsomorphism (graphAt h r1) (graphAt h r2) opts, snd (heapCheckInvariants r1 r2 h))"
    and "int (getVertexCount (graphAt h r1)) > ceiling_of 12 opts \<Longrightarrow>
         heapDetectIsomorphismOptimized r1 r2 opts h =
           (detectIsomorphismOptimized (graphAt h r1) (graphAt h r2) opts,
            snd (heapCheckInvariants r1 r2 h))"
proof -
  obtain cs where cs: "snd (heapCheckInvariants r1 r2 h) = h @ cs"
    using heapCheckInvariants_prefix by blast
  have n: "heapGetVertexCount (snd (heapCheckInvariants r1 r2 h)) r1 = getVertexCount (graphAt h r1)"
    using graph_reads_append(1)[OF g1, of cs]
    by (simp add: cs heapGetVertexCount_def getVertexCount_def)
  show "int (getVertexCount (graphAt h r1)) > ceiling_of 10 opts \<Longrightarrow>
         heapDetectIsomorphism r1 r2 opts h =
           (detectIsomorphism (graphAt h r1) (graphAt h r2) opts, snd (heapCheckInvariants r1 r2 h))"
    using p heapCheckInvariants_refines[OF g1 g2] n
    by (simp add: heapDetectIsomorphism_def detectIsomorphism_def split_def Let_def ceiling_of_def)
  show "int (getVertexCount (graphAt h r1)) > ceiling_of 12 opts \<Longrightarrow>
         heapDetectIsomorphismOptimized r1 r2 opts h =
           (detectIsomorphismOptimized (graphAt h r1) (graphAt h r2) opts,
            snd (heapCheckInvariants r1 r2 h))"
    using p heapCheckInvariants_refines[OF g1 g2] n
    by (simp add: heapDetectIsomorphismOptimized_def detectIsomorphismOptimized_def split_def
        Let_def ceiling_of_def)
qed

section \<open>The specified properties\<close>

text \<open>
  C1 fails on the code.  \<open>mixedKeys\<close> has the vertices \<open>1\<close>, \<open>"1"\<close> and \<open>"x"\<close> and the edge
  \<open>1 - "x"\<close>; \<open>edgeAndPoint\<close> has the edge \<open>"a" - "b"\<close> and the isolated vertex \<open>"c"\<close>.
  Both searches answer \<open>isIsomorphic = true\<close>, and the mapping they return is the object
  with the two properties \<open>"1": "c"\<close> and \<open>"x": "b"\<close>: the vertices \<open>1\<close> and \<open>"1"\<close> are both
  sent to \<open>"c"\<close>, no vertex is sent to \<open>"a"\<close>, and the adjacent pair \<open>(1, "x")\<close> is sent to
  the pair \<open>("c", "b")\<close>, which is not adjacent.  (The \<^verbatim>\<open>Map\<close> the searches validate is an
  isomorphism, \<open>found_mapping_isomorphism\<close> and \<open>optimized_sound\<close>; it is its conversion to
  an object that merges the keys, and \<open>detectIsomorphism_returned_mapping\<close> shows the
  returned object to be an isomorphism when no two vertices share a property key.)
\<close>

theorem returned_mapping_merges_property_keys:
  "vertices mixedKeys = [Num 1, Str ''1'', Str ''x''] \<and>
   vertices edgeAndPoint = [Str ''a'', Str ''b'', Str ''c''] \<and>
   isIsomorphic (fst (detectIsomorphism mixedKeys edgeAndPoint defaultOptions)) = Some True \<and>
   mapping (fst (detectIsomorphism mixedKeys edgeAndPoint defaultOptions))
     = Some [(''1'', Some (Str ''c'')), (''x'', Some (Str ''b''))] \<and>
   \<not> isl (detectIsomorphismOptimized mixedKeys edgeAndPoint defaultOptions) \<and>
   isIsomorphic (fst (projr (detectIsomorphismOptimized mixedKeys edgeAndPoint defaultOptions)))
     = Some True \<and>
   mapping (fst (projr (detectIsomorphismOptimized mixedKeys edgeAndPoint defaultOptions)))
     = Some [(''1'', Some (Str ''c'')), (''x'', Some (Str ''b''))] \<and>
   objGet [(''1'', Some (Str ''c'')), (''x'', Some (Str ''b''))] (Num 1) = Some (Str ''c'') \<and>
   objGet [(''1'', Some (Str ''c'')), (''x'', Some (Str ''b''))] (Str ''1'') = Some (Str ''c'') \<and>
   objGet [(''1'', Some (Str ''c'')), (''x'', Some (Str ''b''))] (Str ''x'') = Some (Str ''b'') \<and>
   areAdjacent mixedKeys (Num 1) (Str ''x'') \<and>
   \<not> areAdjacent edgeAndPoint (Str ''c'') (Str ''b'')"
  by code_simp

text \<open>
  C2, as the code has it.  When the invariant check fails, both searches return at once:
  \<open>isIsomorphic\<close> is \<open>false\<close>, the reason is the invariant mismatch, the mapping is
  \<open>null\<close>, no progress callback has been invoked, and the result carries no
  \<open>permutationsChecked\<close> field at all (the count is absent, not 0).  No candidate is
  enumerated: on the heap, the objects the call has created are those of the invariant
  check and no others.
\<close>

theorem invariant_failure_short_circuits:
  assumes "\<not> isomorphismPossible (checkInvariants g1 g2)"
  shows "detectIsomorphism g1 g2 opts =
           (\<lparr>isIsomorphic = Some False, reason = Some ''Invariants do not match'',
             invariantCheck = checkInvariants g1 g2, mapping = None,
             permutationsChecked = None, optimized = None\<rparr>, []) \<and>
         detectIsomorphismOptimized g1 g2 opts =
           Inr (\<lparr>isIsomorphic = Some False, reason = Some ''Invariants do not match'',
                 invariantCheck = checkInvariants g1 g2, mapping = None,
                 permutationsChecked = None, optimized = None\<rparr>, []) \<and>
         (\<forall>h r1 r2. graphInHeap h r1 \<and> graphInHeap h r2 \<and> graphAt h r1 = g1 \<and> graphAt h r2 = g2 \<longrightarrow>
            heapDetectIsomorphism r1 r2 opts h =
              (detectIsomorphism g1 g2 opts, snd (heapCheckInvariants r1 r2 h)) \<and>
            heapDetectIsomorphismOptimized r1 r2 opts h =
              (detectIsomorphismOptimized g1 g2 opts, snd (heapCheckInvariants r1 r2 h)))"
proof -
  have "heapDetectIsomorphism r1 r2 opts h =
          (detectIsomorphism g1 g2 opts, snd (heapCheckInvariants r1 r2 h)) \<and>
        heapDetectIsomorphismOptimized r1 r2 opts h =
          (detectIsomorphismOptimized g1 g2 opts, snd (heapCheckInvariants r1 r2 h))"
    if "graphInHeap h r1 \<and> graphInHeap h r2 \<and> graphAt h r1 = g1 \<and> graphAt h r2 = g2"
    for h r1 r2
    using that assms heap_invariant_failure[of h r1 r2 opts] by auto
  then show ?thesis
    using assms by (simp add: detectIsomorphism_def detectIsomorphismOptimized_def Let_def)
qed

theorem invariant_failure_short_circuits_witness:
  "\<not> isomorphismPossible (checkInvariants pathABC triangle123) \<and>
   detectIsomorphism pathABC triangle123 reportingOptions =
     (\<lparr>isIsomorphic = Some False, reason = Some ''Invariants do not match'',
       invariantCheck = checkInvariants pathABC triangle123, mapping = None,
       permutationsChecked = None, optimized = None\<rparr>, []) \<and>
   detectIsomorphismOptimized pathABC triangle123 reportingOptions =
     Inr (\<lparr>isIsomorphic = Some False, reason = Some ''Invariants do not match'',
           invariantCheck = checkInvariants pathABC triangle123, mapping = None,
           permutationsChecked = None, optimized = None\<rparr>, []) \<and>
   graphInHeap pathTriangleHeap 6 \<and> graphInHeap pathTriangleHeap 13 \<and>
   graphAt pathTriangleHeap 6 = pathABC \<and> graphAt pathTriangleHeap 13 = triangle123 \<and>
   heapDetectIsomorphism 6 13 reportingOptions pathTriangleHeap =
     (detectIsomorphism pathABC triangle123 reportingOptions,
      snd (heapCheckInvariants 6 13 pathTriangleHeap)) \<and>
   heapDetectIsomorphismOptimized 6 13 reportingOptions pathTriangleHeap =
     (detectIsomorphismOptimized pathABC triangle123 reportingOptions,
      snd (heapCheckInvariants 6 13 pathTriangleHeap))"
proof -
  have h: "\<not> isomorphismPossible (checkInvariants pathABC triangle123)" by code_simp
  have a: "graphInHeap pathTriangleHeap 6" and b: "graphInHeap pathTriangleHeap 13"
    and c: "graphAt pathTriangleHeap 6 = pathABC" and d: "graphAt pathTriangleHeap 13 = triangle123"
    by code_simp+
  note t = invariant_failure_short_circuits[OF h, of reportingOptions]
  from t have 1: "detectIsomorphism pathABC triangle123 reportingOptions =
     (\<lparr>isIsomorphic = Some False, reason = Some ''Invariants do not match'',
       invariantCheck = checkInvariants pathABC triangle123, mapping = None,
       permutationsChecked = None, optimized = None\<rparr>, [])" by (rule conjunct1)
  from t have 2: "detectIsomorphismOptimized pathABC triangle123 reportingOptions =
     Inr (\<lparr>isIsomorphic = Some False, reason = Some ''Invariants do not match'',
           invariantCheck = checkInvariants pathABC triangle123, mapping = None,
           permutationsChecked = None, optimized = None\<rparr>, [])"
    by (rule conjunct1[OF conjunct2])
  from t have "graphInHeap pathTriangleHeap 6 \<and> graphInHeap pathTriangleHeap 13 \<and>
      graphAt pathTriangleHeap 6 = pathABC \<and> graphAt pathTriangleHeap 13 = triangle123 \<longrightarrow>
      heapDetectIsomorphism 6 13 reportingOptions pathTriangleHeap =
        (detectIsomorphism pathABC triangle123 reportingOptions,
         snd (heapCheckInvariants 6 13 pathTriangleHeap)) \<and>
      heapDetectIsomorphismOptimized 6 13 reportingOptions pathTriangleHeap =
        (detectIsomorphismOptimized pathABC triangle123 reportingOptions,
         snd (heapCheckInvariants 6 13 pathTriangleHeap))"
    by blast
  with a b c d have 3: "heapDetectIsomorphism 6 13 reportingOptions pathTriangleHeap =
        (detectIsomorphism pathABC triangle123 reportingOptions,
         snd (heapCheckInvariants 6 13 pathTriangleHeap)) \<and>
      heapDetectIsomorphismOptimized 6 13 reportingOptions pathTriangleHeap =
        (detectIsomorphismOptimized pathABC triangle123 reportingOptions,
         snd (heapCheckInvariants 6 13 pathTriangleHeap))"
    by blast
  from h 1 2 a b c d 3 show ?thesis by blast
qed

text \<open>
  C2, as stated, fails: for the path A - B - C against the triangle 1 - 2 - 3 the invariant
  check fails, and the results of both searches report no count of zero: their
  \<open>permutationsChecked\<close> field is absent.
\<close>

theorem invariant_failure_reports_no_count:
  "\<not> isomorphismPossible (checkInvariants pathABC triangle123) \<and>
   permutationsChecked (fst (detectIsomorphism pathABC triangle123 defaultOptions)) \<noteq> Some 0 \<and>
   \<not> isl (detectIsomorphismOptimized pathABC triangle123 defaultOptions) \<and>
   permutationsChecked (fst (projr (detectIsomorphismOptimized pathABC triangle123 defaultOptions)))
     \<noteq> Some 0"
  by code_simp

text \<open>
  C3 fails on the code.  \<open>multiPathA\<close> and \<open>multiPathB\<close> are the path a - b - c - d with
  repeated edges; both have four vertices, five recorded edges and the degree sequence
  4, 3, 2, 1.  \<open>detectIsomorphism\<close> answers \<open>true\<close> (an isomorphism exists,
  \<open>multiPath_isomorphic\<close>), while \<open>detectIsomorphismOptimized\<close> answers \<open>false\<close> after its
  single candidate: it pairs the vertices by the length of their neighbour lists, in which
  a repeated edge counts twice.  (On graphs without repeated neighbours the two searches
  agree, \<open>strategies_agree_on_simple_graphs\<close>, and a \<open>true\<close> of the degree-partitioned
  search is always right, \<open>optimized_yes_implies_isomorphism\<close>.)
\<close>

theorem strategies_disagree_on_repeated_edges:
  "getVertexCount multiPathA = 4 \<and> getVertexCount multiPathB = 4 \<and>
   isomorphismPossible (checkInvariants multiPathA multiPathB) \<and>
   isIsomorphic (fst (detectIsomorphism multiPathA multiPathB defaultOptions)) = Some True \<and>
   \<not> isl (detectIsomorphismOptimized multiPathA multiPathB defaultOptions) \<and>
   isIsomorphic (fst (projr (detectIsomorphismOptimized multiPathA multiPathB defaultOptions)))
     = Some False \<and>
   permutationsChecked (fst (projr (detectIsomorphismOptimized multiPathA multiPathB defaultOptions)))
     = Some 1"
  by code_simp

text \<open>
  C4.  When the invariant check passes and the first graph has more vertices than the
  ceiling (10 by default in \<open>detectIsomorphism\<close>, 12 in \<open>detectIsomorphismOptimized\<close>), the
  search returns normally with \<open>isIsomorphic = null\<close>, which is not the \<open>false\<close> of a
  negative answer, with a reason text, without a permutation count and without any
  progress callback.  No permutation is enumerated: on the heap, the objects the call has
  created are those of the invariant check and no others.  This holds for every ceiling,
  negative and huge ones included; for a ceiling that is a safe integer the reason text is
  the one given below.
\<close>

theorem ceiling_exceeded_is_indeterminate:
  assumes "isomorphismPossible (checkInvariants g1 g2)"
  shows "(int (getVertexCount g1) > ceiling_of 10 opts \<longrightarrow>
            (\<exists>msg.
               detectIsomorphism g1 g2 opts =
                 (\<lparr>isIsomorphic = None, reason = Some msg,
                   invariantCheck = checkInvariants g1 g2, mapping = None,
                   permutationsChecked = None, optimized = None\<rparr>, []) \<and>
               (safeInteger (ceiling_of 10 opts) \<longrightarrow>
                  msg = ''Graph too large ('' @ show_nat (getVertexCount g1)
                        @ '' vertices > '' @ show_int (ceiling_of 10 opts)
                        @ '' max). Use specialized algorithms.'') \<and>
               (\<forall>h r1 r2. graphInHeap h r1 \<and> graphInHeap h r2 \<and> graphAt h r1 = g1 \<and>
                   graphAt h r2 = g2 \<longrightarrow>
                 heapDetectIsomorphism r1 r2 opts h =
                   ((\<lparr>isIsomorphic = None, reason = Some msg,
                      invariantCheck = checkInvariants g1 g2, mapping = None,
                      permutationsChecked = None, optimized = None\<rparr>, []),
                    snd (heapCheckInvariants r1 r2 h)))) \<and>
            isIsomorphic (fst (detectIsomorphism g1 g2 opts)) \<noteq> Some False) \<and>
         (int (getVertexCount g1) > ceiling_of 12 opts \<longrightarrow>
            (\<exists>msg.
               detectIsomorphismOptimized g1 g2 opts =
                 Inr (\<lparr>isIsomorphic = None, reason = Some msg,
                       invariantCheck = checkInvariants g1 g2, mapping = None,
                       permutationsChecked = None, optimized = None\<rparr>, []) \<and>
               (safeInteger (ceiling_of 12 opts) \<longrightarrow>
                  msg = ''Graph too large ('' @ show_nat (getVertexCount g1)
                        @ '' vertices > '' @ show_int (ceiling_of 12 opts) @ '' max)'') \<and>
               (\<forall>h r1 r2. graphInHeap h r1 \<and> graphInHeap h r2 \<and> graphAt h r1 = g1 \<and>
                   graphAt h r2 = g2 \<longrightarrow>
                 heapDetectIsomorphismOptimized r1 r2 opts h =
                   (Inr (\<lparr>isIsomorphic = None, reason = Some msg,
                          invariantCheck = checkInvariants g1 g2, mapping = None,
                          permutationsChecked = None, optimized = None\<rparr>, []),
                    snd (heapCheckInvariants r1 r2 h)))))"
proof -
  let ?t10 = "''Graph too large ('' @ show_nat (getVertexCount g1)
                @ '' vertices > '' @ show_int (ceiling_of 10 opts)
                @ '' max). Use specialized algorithms.''"
  let ?t12 = "''Graph too large ('' @ show_nat (getVertexCount g1)
                @ '' vertices > '' @ show_int (ceiling_of 12 opts) @ '' max)''"
  have d1: "detectIsomorphism g1 g2 opts =
              (\<lparr>isIsomorphic = None, reason = Some ?t10,
                invariantCheck = checkInvariants g1 g2, mapping = None,
                permutationsChecked = None, optimized = None\<rparr>, [])"
    if "int (getVertexCount g1) > ceiling_of 10 opts"
    using assms that by (simp add: detectIsomorphism_def Let_def ceiling_of_def)
  have d2: "detectIsomorphismOptimized g1 g2 opts =
              Inr (\<lparr>isIsomorphic = None, reason = Some ?t12,
                    invariantCheck = checkInvariants g1 g2, mapping = None,
                    permutationsChecked = None, optimized = None\<rparr>, [])"
    if "int (getVertexCount g1) > ceiling_of 12 opts"
    using assms that by (simp add: detectIsomorphismOptimized_def Let_def ceiling_of_def)
  have h1: "heapDetectIsomorphism r1 r2 opts h =
              ((\<lparr>isIsomorphic = None, reason = Some ?t10,
                 invariantCheck = checkInvariants g1 g2, mapping = None,
                 permutationsChecked = None, optimized = None\<rparr>, []),
               snd (heapCheckInvariants r1 r2 h))"
    if c: "int (getVertexCount g1) > ceiling_of 10 opts"
      and g: "graphInHeap h r1 \<and> graphInHeap h r2 \<and> graphAt h r1 = g1 \<and> graphAt h r2 = g2"
    for h r1 r2
  proof -
    have "heapDetectIsomorphism r1 r2 opts h =
            (detectIsomorphism g1 g2 opts, snd (heapCheckInvariants r1 r2 h))"
      using c g assms heap_ceiling_exceeded(1)[of h r1 r2 opts] by auto
    then show ?thesis by (simp only: d1[OF c])
  qed
  have h2: "heapDetectIsomorphismOptimized r1 r2 opts h =
              (Inr (\<lparr>isIsomorphic = None, reason = Some ?t12,
                     invariantCheck = checkInvariants g1 g2, mapping = None,
                     permutationsChecked = None, optimized = None\<rparr>, []),
               snd (heapCheckInvariants r1 r2 h))"
    if c: "int (getVertexCount g1) > ceiling_of 12 opts"
      and g: "graphInHeap h r1 \<and> graphInHeap h r2 \<and> graphAt h r1 = g1 \<and> graphAt h r2 = g2"
    for h r1 r2
  proof -
    have "heapDetectIsomorphismOptimized r1 r2 opts h =
            (detectIsomorphismOptimized g1 g2 opts, snd (heapCheckInvariants r1 r2 h))"
      using c g assms heap_ceiling_exceeded(2)[of h r1 r2 opts] by auto
    then show ?thesis by (simp only: d2[OF c])
  qed
  have brute: "(\<exists>msg.
               detectIsomorphism g1 g2 opts =
                 (\<lparr>isIsomorphic = None, reason = Some msg,
                   invariantCheck = checkInvariants g1 g2, mapping = None,
                   permutationsChecked = None, optimized = None\<rparr>, []) \<and>
               (safeInteger (ceiling_of 10 opts) \<longrightarrow> msg = ?t10) \<and>
               (\<forall>h r1 r2. graphInHeap h r1 \<and> graphInHeap h r2 \<and> graphAt h r1 = g1 \<and>
                   graphAt h r2 = g2 \<longrightarrow>
                 heapDetectIsomorphism r1 r2 opts h =
                   ((\<lparr>isIsomorphic = None, reason = Some msg,
                      invariantCheck = checkInvariants g1 g2, mapping = None,
                      permutationsChecked = None, optimized = None\<rparr>, []),
                    snd (heapCheckInvariants r1 r2 h)))) \<and>
            isIsomorphic (fst (detectIsomorphism g1 g2 opts)) \<noteq> Some False"
    if c: "int (getVertexCount g1) > ceiling_of 10 opts"
  proof
    show "\<exists>msg.
               detectIsomorphism g1 g2 opts =
                 (\<lparr>isIsomorphic = None, reason = Some msg,
                   invariantCheck = checkInvariants g1 g2, mapping = None,
                   permutationsChecked = None, optimized = None\<rparr>, []) \<and>
               (safeInteger (ceiling_of 10 opts) \<longrightarrow> msg = ?t10) \<and>
               (\<forall>h r1 r2. graphInHeap h r1 \<and> graphInHeap h r2 \<and> graphAt h r1 = g1 \<and>
                   graphAt h r2 = g2 \<longrightarrow>
                 heapDetectIsomorphism r1 r2 opts h =
                   ((\<lparr>isIsomorphic = None, reason = Some msg,
                      invariantCheck = checkInvariants g1 g2, mapping = None,
                      permutationsChecked = None, optimized = None\<rparr>, []),
                    snd (heapCheckInvariants r1 r2 h)))"
      using d1[OF c] h1[OF c] by (intro exI[of _ ?t10]) blast
    show "isIsomorphic (fst (detectIsomorphism g1 g2 opts)) \<noteq> Some False"
      by (simp add: d1[OF c])
  qed
  have opt: "\<exists>msg.
               detectIsomorphismOptimized g1 g2 opts =
                 Inr (\<lparr>isIsomorphic = None, reason = Some msg,
                       invariantCheck = checkInvariants g1 g2, mapping = None,
                       permutationsChecked = None, optimized = None\<rparr>, []) \<and>
               (safeInteger (ceiling_of 12 opts) \<longrightarrow> msg = ?t12) \<and>
               (\<forall>h r1 r2. graphInHeap h r1 \<and> graphInHeap h r2 \<and> graphAt h r1 = g1 \<and>
                   graphAt h r2 = g2 \<longrightarrow>
                 heapDetectIsomorphismOptimized r1 r2 opts h =
                   (Inr (\<lparr>isIsomorphic = None, reason = Some msg,
                          invariantCheck = checkInvariants g1 g2, mapping = None,
                          permutationsChecked = None, optimized = None\<rparr>, []),
                    snd (heapCheckInvariants r1 r2 h)))"
    if c: "int (getVertexCount g1) > ceiling_of 12 opts"
    using d2[OF c] h2[OF c] by (intro exI[of _ ?t12]) blast
  from brute opt show ?thesis by blast
qed

theorem ceiling_exceeded_is_indeterminate_witness:
  "isomorphismPossible (checkInvariants thirteen thirteen) \<and>
   int (getVertexCount thirteen) > ceiling_of 10 defaultOptions \<and>
   int (getVertexCount thirteen) > ceiling_of 12 defaultOptions \<and>
   safeInteger (ceiling_of 10 defaultOptions) \<and> safeInteger (ceiling_of 12 defaultOptions) \<and>
   detectIsomorphism thirteen thirteen defaultOptions =
     (\<lparr>isIsomorphic = None,
       reason = Some ''Graph too large (13 vertices > 10 max). Use specialized algorithms.'',
       invariantCheck = checkInvariants thirteen thirteen, mapping = None,
       permutationsChecked = None, optimized = None\<rparr>, []) \<and>
   detectIsomorphismOptimized thirteen thirteen defaultOptions =
     Inr (\<lparr>isIsomorphic = None,
           reason = Some ''Graph too large (13 vertices > 12 max)'',
           invariantCheck = checkInvariants thirteen thirteen, mapping = None,
           permutationsChecked = None, optimized = None\<rparr>, []) \<and>
   graphInHeap thirteenHeap 16 \<and> graphAt thirteenHeap 16 = thirteen \<and>
   heapDetectIsomorphism 16 16 defaultOptions thirteenHeap =
     (detectIsomorphism thirteen thirteen defaultOptions,
      snd (heapCheckInvariants 16 16 thirteenHeap)) \<and>
   heapDetectIsomorphismOptimized 16 16 defaultOptions thirteenHeap =
     (detectIsomorphismOptimized thirteen thirteen defaultOptions,
      snd (heapCheckInvariants 16 16 thirteenHeap)) \<and>
   isomorphismPossible (checkInvariants pathABC pathABC) \<and>
   int (getVertexCount pathABC)
     > ceiling_of 10 \<lparr>maxVertices = Some (- (10 ^ 21)), onProgress = True\<rparr> \<and>
   \<not> safeInteger (ceiling_of 10 \<lparr>maxVertices = Some (- (10 ^ 21)), onProgress = True\<rparr>) \<and>
   isIsomorphic (fst (detectIsomorphism pathABC pathABC
       \<lparr>maxVertices = Some (- (10 ^ 21)), onProgress = True\<rparr>)) = None \<and>
   snd (detectIsomorphism pathABC pathABC
       \<lparr>maxVertices = Some (- (10 ^ 21)), onProgress = True\<rparr>) = [] \<and>
   isIsomorphic (fst (projr (detectIsomorphismOptimized pathABC pathABC
       \<lparr>maxVertices = Some (- (10 ^ 21)), onProgress = True\<rparr>))) = None"
proof -
  have h: "isomorphismPossible (checkInvariants thirteen thirteen)" by code_simp
  have a: "int (getVertexCount thirteen) > ceiling_of 10 defaultOptions"
    and b: "int (getVertexCount thirteen) > ceiling_of 12 defaultOptions"
    by code_simp+
  have sa: "safeInteger (ceiling_of 10 defaultOptions)"
    and sb: "safeInteger (ceiling_of 12 defaultOptions)"
    by code_simp+
  have c: "graphInHeap thirteenHeap 16" and d: "graphAt thirteenHeap 16 = thirteen"
    by code_simp+
  have t10: "''Graph too large ('' @ show_nat (getVertexCount thirteen)
               @ '' vertices > '' @ show_int (ceiling_of 10 defaultOptions)
               @ '' max). Use specialized algorithms.''
             = ''Graph too large (13 vertices > 10 max). Use specialized algorithms.''"
    by code_simp
  have t12: "''Graph too large ('' @ show_nat (getVertexCount thirteen)
               @ '' vertices > '' @ show_int (ceiling_of 12 defaultOptions) @ '' max)''
             = ''Graph too large (13 vertices > 12 max)''"
    by code_simp
  note t = ceiling_exceeded_is_indeterminate[OF h, of defaultOptions]
  from t a sa obtain msg where
    e1: "detectIsomorphism thirteen thirteen defaultOptions =
          (\<lparr>isIsomorphic = None, reason = Some msg,
            invariantCheck = checkInvariants thirteen thirteen, mapping = None,
            permutationsChecked = None, optimized = None\<rparr>, [])"
    and e2: "msg = ''Graph too large ('' @ show_nat (getVertexCount thirteen)
               @ '' vertices > '' @ show_int (ceiling_of 10 defaultOptions)
               @ '' max). Use specialized algorithms.''"
    and e3: "\<forall>h r1 r2. graphInHeap h r1 \<and> graphInHeap h r2 \<and> graphAt h r1 = thirteen \<and>
                graphAt h r2 = thirteen \<longrightarrow>
              heapDetectIsomorphism r1 r2 defaultOptions h =
                ((\<lparr>isIsomorphic = None, reason = Some msg,
                   invariantCheck = checkInvariants thirteen thirteen, mapping = None,
                   permutationsChecked = None, optimized = None\<rparr>, []),
                 snd (heapCheckInvariants r1 r2 h))"
    by blast
  from t b sb obtain msg' where
    e4: "detectIsomorphismOptimized thirteen thirteen defaultOptions =
          Inr (\<lparr>isIsomorphic = None, reason = Some msg',
                invariantCheck = checkInvariants thirteen thirteen, mapping = None,
                permutationsChecked = None, optimized = None\<rparr>, [])"
    and e5: "msg' = ''Graph too large ('' @ show_nat (getVertexCount thirteen)
               @ '' vertices > '' @ show_int (ceiling_of 12 defaultOptions) @ '' max)''"
    and e6: "\<forall>h r1 r2. graphInHeap h r1 \<and> graphInHeap h r2 \<and> graphAt h r1 = thirteen \<and>
                graphAt h r2 = thirteen \<longrightarrow>
              heapDetectIsomorphismOptimized r1 r2 defaultOptions h =
                (Inr (\<lparr>isIsomorphic = None, reason = Some msg',
                       invariantCheck = checkInvariants thirteen thirteen, mapping = None,
                       permutationsChecked = None, optimized = None\<rparr>, []),
                 snd (heapCheckInvariants r1 r2 h))"
    by blast
  from e3 c d have 7: "heapDetectIsomorphism 16 16 defaultOptions thirteenHeap =
     (detectIsomorphism thirteen thirteen defaultOptions,
      snd (heapCheckInvariants 16 16 thirteenHeap))"
    unfolding e1 by blast
  from e6 c d have 8: "heapDetectIsomorphismOptimized 16 16 defaultOptions thirteenHeap =
     (detectIsomorphismOptimized thirteen thirteen defaultOptions,
      snd (heapCheckInvariants 16 16 thirteenHeap))"
    unfolding e4 by blast
  have 9: "detectIsomorphism thirteen thirteen defaultOptions =
     (\<lparr>isIsomorphic = None,
       reason = Some ''Graph too large (13 vertices > 10 max). Use specialized algorithms.'',
       invariantCheck = checkInvariants thirteen thirteen, mapping = None,
       permutationsChecked = None, optimized = None\<rparr>, [])"
    using e1 unfolding e2 t10 .
  have 10: "detectIsomorphismOptimized thirteen thirteen defaultOptions =
     Inr (\<lparr>isIsomorphic = None,
           reason = Some ''Graph too large (13 vertices > 12 max)'',
           invariantCheck = checkInvariants thirteen thirteen, mapping = None,
           permutationsChecked = None, optimized = None\<rparr>, [])"
    using e4 unfolding e5 t12 .
  let ?o = "\<lparr>maxVertices = Some (- (10 ^ 21)), onProgress = True\<rparr>"
  have h': "isomorphismPossible (checkInvariants pathABC pathABC)" by code_simp
  have a': "int (getVertexCount pathABC) > ceiling_of 10 ?o"
    and b': "int (getVertexCount pathABC) > ceiling_of 12 ?o"
    and n': "\<not> safeInteger (ceiling_of 10 ?o)"
    by code_simp+
  note t' = ceiling_exceeded_is_indeterminate[OF h', of ?o]
  from t' a' obtain u where
    "detectIsomorphism pathABC pathABC ?o =
       (\<lparr>isIsomorphic = None, reason = Some u,
         invariantCheck = checkInvariants pathABC pathABC, mapping = None,
         permutationsChecked = None, optimized = None\<rparr>, [])"
    by blast
  then have 11: "isIsomorphic (fst (detectIsomorphism pathABC pathABC ?o)) = None"
    and 12: "snd (detectIsomorphism pathABC pathABC ?o) = []"
    by simp_all
  from t' b' obtain u' where
    "detectIsomorphismOptimized pathABC pathABC ?o =
       Inr (\<lparr>isIsomorphic = None, reason = Some u',
             invariantCheck = checkInvariants pathABC pathABC, mapping = None,
             permutationsChecked = None, optimized = None\<rparr>, [])"
    by blast
  then have 13: "isIsomorphic (fst (projr (detectIsomorphismOptimized pathABC pathABC ?o))) = None"
    by simp
  from h a b sa sb 9 10 c d 7 8 h' a' n' 11 12 13 show ?thesis by blast
qed

text \<open>
  C5.  For graphs whose vertex sets are sets (no vertex listed twice), \<open>detectIsomorphism\<close>
  gives the same verdict in both directions under the same options: \<open>isIsomorphic\<close> is
  \<open>true\<close>, \<open>false\<close> or \<open>null\<close> for \<open>(A, B)\<close> exactly as it is for \<open>(B, A)\<close>.
\<close>

theorem detectIsomorphism_symmetric:
  assumes "distinct (vertices g1)" and "distinct (vertices g2)"
  shows "isIsomorphic (fst (detectIsomorphism g1 g2 opts)) =
         isIsomorphic (fst (detectIsomorphism g2 g1 opts))"
proof (cases "isomorphismPossible (checkInvariants g1 g2)")
  case False
  then show ?thesis
    using isomorphismPossible_sym[of g1 g2] by (simp add: detectIsomorphism_verdict)
next
  case True
  then have p: "isomorphismPossible (checkInvariants g2 g1)"
    using isomorphismPossible_sym[of g1 g2] by simp
  from True have l: "length (vertices g1) = length (vertices g2)"
    by (simp add: isomorphismPossible_iff getVertexCount_def)
  show ?thesis
  proof (cases "int (getVertexCount g1) > ceiling_of 10 opts")
    case True
    with \<open>isomorphismPossible (checkInvariants g1 g2)\<close> p l show ?thesis
      by (simp add: detectIsomorphism_verdict getVertexCount_def)
  next
    case False
    then have c1: "int (getVertexCount g1) \<le> ceiling_of 10 opts" by simp
    with l have c2: "int (getVertexCount g2) \<le> ceiling_of 10 opts"
      by (simp add: getVertexCount_def)
    from detectIsomorphism_decides[OF assms True c1]
      detectIsomorphism_decides[OF assms(2,1) p c2]
      isomorphism_sym[of g1 g2]
    show ?thesis by simp
  qed
qed

theorem detectIsomorphism_symmetric_witness:
  "distinct (vertices triangleABC) \<and> distinct (vertices triangle123) \<and>
   isIsomorphic (fst (detectIsomorphism triangleABC triangle123 defaultOptions)) = Some True \<and>
   isIsomorphic (fst (detectIsomorphism triangleABC triangle123 defaultOptions)) =
   isIsomorphic (fst (detectIsomorphism triangle123 triangleABC defaultOptions))"
proof -
  have a: "distinct (vertices triangleABC)" and b: "distinct (vertices triangle123)"
    and c: "isIsomorphic (fst (detectIsomorphism triangleABC triangle123 defaultOptions)) = Some True"
    by code_simp+
  from detectIsomorphism_symmetric[OF a b, of defaultOptions] a b c show ?thesis by blast
qed

text \<open>
  C6.  \<open>checkInvariants\<close> reports \<open>isomorphismPossible\<close> exactly when the two graphs have
  equal vertex counts, equal edge counts and element-wise equal degree sequences; each
  degree sequence is the list of the vertices' degrees in descending order.
\<close>

theorem checkInvariants_possible_iff:
  "(isomorphismPossible (checkInvariants g1 g2) \<longleftrightarrow>
      getVertexCount g1 = getVertexCount g2 \<and> getEdgeCount g1 = getEdgeCount g2 \<and>
      getDegreeSequence g1 = getDegreeSequence g2) \<and>
   sorted (rev (getDegreeSequence g1)) \<and>
   mset (getDegreeSequence g1) = mset (map (getDegree g1) (vertices g1)) \<and>
   sorted (rev (getDegreeSequence g2)) \<and>
   mset (getDegreeSequence g2) = mset (map (getDegree g2) (vertices g2))"
  by (simp add: isomorphismPossible_iff getDegreeSequence_sorted getDegreeSequence_mset)

theorem checkInvariants_possible_iff_witness:
  "isomorphismPossible (checkInvariants triangleABC triangle123) \<and>
   getDegreeSequence triangleABC = [2, 2, 2] \<and>
   \<not> isomorphismPossible (checkInvariants square paw) \<and>
   getVertexCount square = getVertexCount paw \<and> getEdgeCount square = getEdgeCount paw \<and>
   getDegreeSequence square = [2, 2, 2, 2] \<and> getDegreeSequence paw = [3, 2, 2, 1]"
proof -
  have a: "getVertexCount triangleABC = getVertexCount triangle123"
    and b: "getEdgeCount triangleABC = getEdgeCount triangle123"
    and c: "getDegreeSequence triangleABC = getDegreeSequence triangle123"
    and d: "getDegreeSequence triangleABC = [2, 2, 2]"
    by code_simp+
  have e: "getVertexCount square = getVertexCount paw"
    and f: "getEdgeCount square = getEdgeCount paw"
    and g: "getDegreeSequence square = [2, 2, 2, 2]"
    and h: "getDegreeSequence paw = [3, 2, 2, 1]"
    by code_simp+
  from checkInvariants_possible_iff[of triangleABC triangle123] a b c
  have "isomorphismPossible (checkInvariants triangleABC triangle123)" by blast
  moreover from checkInvariants_possible_iff[of square paw] g h
  have "\<not> isomorphismPossible (checkInvariants square paw)" by simp
  ultimately show ?thesis using d e f g h by blast
qed

text \<open>
  C7, as the code has it.  Two graphs whose vertices fall into different numbers of degree
  groups have different degree sequences, so \<open>detectIsomorphismOptimized\<close> rejects them in
  the invariant check, with the reason of that check and without building a candidate; the
  comparison of the numbers of degree groups is only reached when the numbers are equal.
\<close>

theorem different_group_count_fails_invariants:
  assumes "length (degreeGroups g1) \<noteq> length (degreeGroups g2)"
  shows "getDegreeSequence g1 \<noteq> getDegreeSequence g2 \<and>
         detectIsomorphismOptimized g1 g2 opts =
           Inr (\<lparr>isIsomorphic = Some False, reason = Some ''Invariants do not match'',
                 invariantCheck = checkInvariants g1 g2, mapping = None,
                 permutationsChecked = None, optimized = None\<rparr>, [])"
proof -
  from assms have d: "getDegreeSequence g1 \<noteq> getDegreeSequence g2"
    by (metis set_getDegreeSequence length_degreeGroups)
  then have "\<not> isomorphismPossible (checkInvariants g1 g2)"
    by (simp add: isomorphismPossible_iff)
  then show ?thesis using d
    by (simp add: detectIsomorphismOptimized_def Let_def)
qed

theorem different_group_count_fails_invariants_witness:
  "length (degreeGroups square) \<noteq> length (degreeGroups paw) \<and>
   getDegreeSequence square \<noteq> getDegreeSequence paw \<and>
   detectIsomorphismOptimized square paw defaultOptions =
     Inr (\<lparr>isIsomorphic = Some False, reason = Some ''Invariants do not match'',
           invariantCheck = checkInvariants square paw, mapping = None,
           permutationsChecked = None, optimized = None\<rparr>, [])"
proof -
  have h: "length (degreeGroups square) \<noteq> length (degreeGroups paw)" by code_simp
  from different_group_count_fails_invariants[OF h, of defaultOptions] h show ?thesis by blast
qed

text \<open>
  C7, as stated, fails: the square and the triangle with a pendant vertex have one and three
  degree groups, and the reason returned is that of the invariant check, not
  "Different number of degree groups".
\<close>

theorem different_group_count_reason:
  "length (degreeGroups square) = 1 \<and> length (degreeGroups paw) = 3 \<and>
   \<not> isl (detectIsomorphismOptimized square paw defaultOptions) \<and>
   reason (fst (projr (detectIsomorphismOptimized square paw defaultOptions)))
     = Some ''Invariants do not match'' \<and>
   reason (fst (projr (detectIsomorphismOptimized square paw defaultOptions)))
     \<noteq> Some ''Different number of degree groups''"
  by code_simp

text \<open>
  C8.  On the heap of objects, a call of \<open>detectIsomorphism\<close> or of
  \<open>detectIsomorphismOptimized\<close> only adds objects: whatever the outcome, the heap after the
  call is the heap before it followed by the objects the call created.  So for both input
  graphs the directedness flag, the vertex set, the adjacency map with its neighbour arrays
  and the edge array are after the call what they were before it.
\<close>

theorem searches_leave_inputs_unchanged:
  assumes "graphInHeap h g1" and "graphInHeap h g2"
  shows "(\<exists>created. snd (heapDetectIsomorphism g1 g2 opts h) = h @ created) \<and>
         graphAt (snd (heapDetectIsomorphism g1 g2 opts h)) g1 = graphAt h g1 \<and>
         graphAt (snd (heapDetectIsomorphism g1 g2 opts h)) g2 = graphAt h g2 \<and>
         (\<exists>created. snd (heapDetectIsomorphismOptimized g1 g2 opts h) = h @ created) \<and>
         graphAt (snd (heapDetectIsomorphismOptimized g1 g2 opts h)) g1 = graphAt h g1 \<and>
         graphAt (snd (heapDetectIsomorphismOptimized g1 g2 opts h)) g2 = graphAt h g2"
proof -
  have a: "snd (heapDetectIsomorphism g1 g2 opts h)
      = h @ drop (length h) (snd (heapDetectIsomorphism g1 g2 opts h))"
    by (rule keeps_all_append) (rule heapDetectIsomorphism_keeps, simp)
  have b: "snd (heapDetectIsomorphismOptimized g1 g2 opts h)
      = h @ drop (length h) (snd (heapDetectIsomorphismOptimized g1 g2 opts h))"
    by (rule keeps_all_append) (rule heapDetectIsomorphismOptimized_keeps, simp)
  from a assms have "graphAt (snd (heapDetectIsomorphism g1 g2 opts h)) g1 = graphAt h g1"
    and "graphAt (snd (heapDetectIsomorphism g1 g2 opts h)) g2 = graphAt h g2"
    by (metis graphAt_append)+
  moreover from b assms
  have "graphAt (snd (heapDetectIsomorphismOptimized g1 g2 opts h)) g1 = graphAt h g1"
    and "graphAt (snd (heapDetectIsomorphismOptimized g1 g2 opts h)) g2 = graphAt h g2"
    by (metis graphAt_append)+
  ultimately show ?thesis using a b by blast
qed

theorem searches_leave_inputs_unchanged_witness:
  "twoGraphs edgeAB edge12 = (5, 11, edgeHeap) \<and>
   graphInHeap edgeHeap 5 \<and> graphInHeap edgeHeap 11 \<and>
   graphAt edgeHeap 5 = edgeAB \<and> graphAt edgeHeap 11 = edge12 \<and>
   fst (heapDetectIsomorphism 5 11 reportingOptions edgeHeap)
     = detectIsomorphism edgeAB edge12 reportingOptions \<and>
   fst (heapDetectIsomorphismOptimized 5 11 reportingOptions edgeHeap)
     = detectIsomorphismOptimized edgeAB edge12 reportingOptions \<and>
   length edgeHeap < length (snd (heapDetectIsomorphism 5 11 reportingOptions edgeHeap)) \<and>
   graphAt (snd (heapDetectIsomorphism 5 11 reportingOptions edgeHeap)) 5 = edgeAB \<and>
   graphAt (snd (heapDetectIsomorphism 5 11 reportingOptions edgeHeap)) 11 = edge12 \<and>
   graphAt (snd (heapDetectIsomorphismOptimized 5 11 reportingOptions edgeHeap)) 5 = edgeAB \<and>
   graphAt (snd (heapDetectIsomorphismOptimized 5 11 reportingOptions edgeHeap)) 11 = edge12"
proof -
  have t: "twoGraphs edgeAB edge12 = (5, 11, edgeHeap)" by code_simp
  have a: "graphInHeap edgeHeap 5" and b: "graphInHeap edgeHeap 11" by code_simp+
  have c: "graphAt edgeHeap 5 = edgeAB" and d: "graphAt edgeHeap 11 = edge12"
    by code_simp+
  have e: "fst (heapDetectIsomorphism 5 11 reportingOptions edgeHeap)
     = detectIsomorphism edgeAB edge12 reportingOptions"
    by code_simp
  have f: "fst (heapDetectIsomorphismOptimized 5 11 reportingOptions edgeHeap)
     = detectIsomorphismOptimized edgeAB edge12 reportingOptions"
    by code_simp
  have g: "length edgeHeap < length (snd (heapDetectIsomorphism 5 11 reportingOptions edgeHeap))"
    by code_simp
  from searches_leave_inputs_unchanged[OF a b, of reportingOptions] t a b c d e f g
  show ?thesis by simp
qed

text \<open>
  C9.  Every sequence of \<open>addVertex\<close> and \<open>addEdge\<close> calls on a new undirected graph runs
  without an exception, and in the graph it builds every recorded edge \<open>(u, v)\<close> has \<open>v\<close>
  among the neighbours of \<open>u\<close> and \<open>u\<close> among the neighbours of \<open>v\<close>, and \<open>areAdjacent\<close>
  is symmetric on all pairs.
\<close>

theorem undirected_adjacency_symmetric:
  "\<exists>g. applyAll xs (Graph False) = Inr g \<and>
       (\<forall>(u, v) \<in> set (edges g). v \<in> set (getNeighbors g u) \<and> u \<in> set (getNeighbors g v)) \<and>
       (\<forall>u v. areAdjacent g u v = areAdjacent g v u)"
proof -
  from applyAll_built[OF built_inv_Graph, of xs]
  obtain g where g: "applyAll xs (Graph False) = Inr g" "built_inv g" by blast
  from g(2) have "\<forall>(u, v) \<in> set (edges g). v \<in> set (getNeighbors g u) \<and> u \<in> set (getNeighbors g v)"
    unfolding built_inv_def getNeighbors_iff by blast
  moreover from g(2) have "\<forall>u v. areAdjacent g u v = areAdjacent g v u"
    unfolding built_inv_def by blast
  ultimately show ?thesis using g(1) by blast
qed

theorem undirected_adjacency_symmetric_witness:
  "applyAll [AddEdge (Str ''A'') (Str ''B''), AddEdge (Str ''B'') (Str ''C'')] (Graph False)
     = Inr pathABC \<and>
   edges pathABC = [(Str ''A'', Str ''B''), (Str ''B'', Str ''C'')] \<and>
   Str ''B'' \<in> set (getNeighbors pathABC (Str ''A'')) \<and>
   Str ''A'' \<in> set (getNeighbors pathABC (Str ''B'')) \<and>
   areAdjacent pathABC (Str ''C'') (Str ''B'') = areAdjacent pathABC (Str ''B'') (Str ''C'')"
proof -
  have b: "applyAll [AddEdge (Str ''A'') (Str ''B''), AddEdge (Str ''B'') (Str ''C'')] (Graph False)
     = Inr pathABC"
    and e: "edges pathABC = [(Str ''A'', Str ''B''), (Str ''B'', Str ''C'')]"
    by code_simp+
  from undirected_adjacency_symmetric[of "[AddEdge (Str ''A'') (Str ''B''), AddEdge (Str ''B'') (Str ''C'')]"]
  obtain g where g: "applyAll [AddEdge (Str ''A'') (Str ''B''), AddEdge (Str ''B'') (Str ''C'')] (Graph False) = Inr g"
    "\<forall>(u, v) \<in> set (edges g). v \<in> set (getNeighbors g u) \<and> u \<in> set (getNeighbors g v)"
    "\<forall>u v. areAdjacent g u v = areAdjacent g v u"
    by blast
  from g(1) b have "g = pathABC" by simp
  with g(2,3) e b show ?thesis by simp
qed

text \<open>
  C10.  For two graphs without vertices (hence, every edge joining vertices, without
  edges) and a ceiling that is not negative, \<open>detectIsomorphism\<close> examines the one empty
  permutation, reports it to the progress callback as candidate 1 of 1, and returns
  \<open>isIsomorphic = true\<close> with the empty mapping and \<open>permutationsChecked = 1\<close>.
\<close>

theorem empty_graphs_isomorphic:
  assumes "vertices g1 = []" and "vertices g2 = []"
    and "edges_ok g1" and "edges_ok g2"
    and "0 \<le> ceiling_of 10 opts"
  shows "detectIsomorphism g1 g2 opts =
           (\<lparr>isIsomorphic = Some True, reason = None,
             invariantCheck = checkInvariants g1 g2, mapping = Some [],
             permutationsChecked = Some 1, optimized = None\<rparr>,
            if onProgress opts then [\<lparr>checked = 1, total = Some 1\<rparr>] else [])"
proof -
  from assms(1,3) have "edges g1 = []" by (cases "edges g1") (auto simp: edges_ok_def)
  moreover from assms(2,4) have "edges g2 = []" by (cases "edges g2") (auto simp: edges_ok_def)
  ultimately have "isomorphismPossible (checkInvariants g1 g2)"
    using assms(1,2)
    by (simp add: isomorphismPossible_iff getVertexCount_def getEdgeCount_def
        getDegreeSequence_def)
  then show ?thesis using assms(1,2,5)
    by (simp add: detectIsomorphism_def Let_def getVertexCount_def permute_Nil
        isValidMapping_def fromEntries_def ceiling_of_def)
qed

theorem empty_graphs_isomorphic_witness:
  "vertices (Graph False :: vertex graph) = [] \<and> edges_ok (Graph False :: vertex graph) \<and>
   0 \<le> ceiling_of 10 reportingOptions \<and>
   detectIsomorphism (Graph False) (Graph False) reportingOptions =
     (\<lparr>isIsomorphic = Some True, reason = None,
       invariantCheck = checkInvariants (Graph False :: vertex graph) (Graph False :: vertex graph),
       mapping = Some [], permutationsChecked = Some 1, optimized = None\<rparr>,
      [\<lparr>checked = 1, total = Some 1\<rparr>])"
proof -
  have v: "vertices (Graph False :: vertex graph) = []" by (simp add: Graph_def)
  have e: "edges_ok (Graph False :: vertex graph)" by (simp add: Graph_def edges_ok_def)
  have c: "0 \<le> ceiling_of 10 reportingOptions" by (simp add: ceiling_of_def reportingOptions_def)
  have p: "onProgress reportingOptions" by (simp add: reportingOptions_def)
  from empty_graphs_isomorphic[OF v v e e c] p v e c show ?thesis by simp
qed


end
